theory Spec2Isabelle
  imports Main "HOL-Library.AList" "HOL-Library.Char_ord" "HOL-Library.List_Lexorder"
begin

section \<open>Data model of the analyzer\<close>

text \<open>
  \<^verbatim>\<open>OdooModule\<close> of \<^verbatim>\<open>analyzer.py\<close>: one record per scanned module, built from
  its manifest.
\<close>

record OdooModule =
  name :: string
  path :: string
  version :: string
  summary :: string
  description :: string
  author :: string
  category :: string
  depends :: "string list"
  data :: "string list"
  installable :: bool
  application :: bool
  auto_install :: bool
  license :: string

text \<open>The constructor \<^verbatim>\<open>OdooModule(name, path)\<close> with the defaults of the dataclass.\<close>

definition OdooModule_init :: "string \<Rightarrow> string \<Rightarrow> OdooModule" where
  "OdooModule_init n p =
     \<lparr>name = n, path = p, version = ''1.0'', summary = [], description = [], author = [],
      category = [], depends = [], data = [], installable = True, application = False,
      auto_install = False, license = ''LGPL-3''\<rparr>"

text \<open>The hardcoded class attribute \<^verbatim>\<open>OdooModuleAnalyzer.CORE_MODULES\<close>.\<close>

definition CORE_MODULES :: "string set" where
  "CORE_MODULES = set
     [''base'', ''web'', ''mail'', ''portal'', ''auth_signup'', ''contacts'',
      ''sale'', ''purchase'', ''stock'', ''account'', ''mrp'', ''project'',
      ''hr'', ''crm'', ''website'', ''point_of_sale'', ''fleet'', ''lunch'',
      ''calendar'', ''note'', ''board'', ''fetchmail'', ''bus'', ''im_livechat'',
      ''utm'', ''http_routing'', ''digest'', ''phone_validation'',
      ''base_import'', ''base_setup'', ''web_editor'', ''web_tour'',
      ''iap'', ''sms'', ''snailmail'', ''product'', ''uom'', ''analytic'',
      ''payment'', ''delivery'', ''rating'', ''resource'', ''survey'']"

section \<open>The directed graph of the networkx library\<close>

text \<open>
  The analyzer stores its graph in a \<^verbatim>\<open>networkx.DiGraph\<close>. The library keeps a
  dictionary from node to attribute dictionary and, per node, dictionaries of successors
  and predecessors; all of them iterate in insertion order. The model keeps the node
  dictionary as an association list and the adjacency as the list of edges in insertion
  order, from which the successor and predecessor lists of a node are read in that order.
  Nothing in the analyzer removes a node or an edge.
\<close>

datatype attr_value = AStr string | ABool bool

type_synonym node_attrs = "(string \<times> attr_value) list"

record DiGraph =
  node :: "(string \<times> node_attrs) list"
  adj :: "(string \<times> string) list"

definition empty_graph :: DiGraph where
  "empty_graph = \<lparr>node = [], adj = []\<rparr>"

definition nodes :: "DiGraph \<Rightarrow> string list" where
  "nodes G = map fst (node G)"

text \<open>\<^verbatim>\<open>n in G\<close>\<close>

definition has_node :: "DiGraph \<Rightarrow> string \<Rightarrow> bool" where
  "has_node G n = (n \<in> set (nodes G))"

definition has_edge :: "DiGraph \<Rightarrow> string \<Rightarrow> string \<Rightarrow> bool" where
  "has_edge G u v = ((u, v) \<in> set (adj G))"

text \<open>\<^verbatim>\<open>G.nodes[n].get(k)\<close>\<close>

definition node_attr :: "DiGraph \<Rightarrow> string \<Rightarrow> string \<Rightarrow> attr_value option" where
  "node_attr G n k = (case map_of (node G) n of None \<Rightarrow> None | Some d \<Rightarrow> map_of d k)"

text \<open>\<^verbatim>\<open>dict.update\<close> on an attribute dictionary.\<close>

definition update_attrs :: "node_attrs \<Rightarrow> node_attrs \<Rightarrow> node_attrs" where
  "update_attrs old new = fold (\<lambda>(k, v) d. AList.update k v d) new old"

text \<open>
  \<^verbatim>\<open>G.add_node(n, **attr)\<close>: a new node is appended with the given attributes, an
  existing node keeps its place and has its attribute dictionary updated.
\<close>

definition add_node :: "DiGraph \<Rightarrow> string \<Rightarrow> node_attrs \<Rightarrow> DiGraph" where
  "add_node G n attr =
     (case map_of (node G) n of
        None \<Rightarrow> G\<lparr>node := node G @ [(n, update_attrs [] attr)]\<rparr>
      | Some old \<Rightarrow> G\<lparr>node := AList.update n (update_attrs old attr) (node G)\<rparr>)"

text \<open>
  \<^verbatim>\<open>G.add_edge(u, v)\<close>: both end points become nodes (with no attributes) when they
  are not nodes yet; an edge that is there already is not added again.
\<close>

definition add_edge :: "DiGraph \<Rightarrow> string \<Rightarrow> string \<Rightarrow> DiGraph" where
  "add_edge G u v =
     (let G1 = (if has_node G u then G else G\<lparr>node := node G @ [(u, [])]\<rparr>);
          G2 = (if has_node G1 v then G1 else G1\<lparr>node := node G1 @ [(v, [])]\<rparr>)
      in if has_edge G2 u v then G2 else G2\<lparr>adj := adj G2 @ [(u, v)]\<rparr>)"

text \<open>\<^verbatim>\<open>G.successors(u)\<close> and \<^verbatim>\<open>G.predecessors(v)\<close>, in insertion order.\<close>

definition successors :: "DiGraph \<Rightarrow> string \<Rightarrow> string list" where
  "successors G u = map snd (filter (\<lambda>e. fst e = u) (adj G))"

definition predecessors :: "DiGraph \<Rightarrow> string \<Rightarrow> string list" where
  "predecessors G v = map fst (filter (\<lambda>e. snd e = v) (adj G))"

text \<open>
  \<^verbatim>\<open>G.edges\<close> iterates the nodes in order and, for each, its successors in order.
\<close>

definition edges :: "DiGraph \<Rightarrow> (string \<times> string) list" where
  "edges G = concat (map (\<lambda>u. map (\<lambda>v. (u, v)) (successors G u)) (nodes G))"

text \<open>
  \<^verbatim>\<open>G.reverse()\<close>: a new graph with the nodes of \<open>G\<close> (and their attributes) and, for
  each edge of \<^verbatim>\<open>G.edges\<close>, the opposite edge.
\<close>

definition reverse :: "DiGraph \<Rightarrow> DiGraph" where
  "reverse G =
     fold (\<lambda>(u, v) H. add_edge H v u) (edges G)
       (fold (\<lambda>(n, d) H. add_node H n d) (node G) empty_graph)"

text \<open>The edges of a graph as a relation.\<close>

definition edge_rel :: "DiGraph \<Rightarrow> (string \<times> string) set" where
  "edge_rel G = set (adj G)"

section \<open>The analyzer and the construction of the dependency graph\<close>

text \<open>
  The state of an \<^verbatim>\<open>OdooModuleAnalyzer\<close>: the scan paths, the module dictionary (in
  insertion order) and the graph, which is \<^verbatim>\<open>None\<close> until it is built. A path is
  kept resolved, as the list of its components below the root of the file system.
\<close>

type_synonym fpath = "string list"

record OdooModuleAnalyzer =
  paths :: "fpath list"
  modules :: "(string \<times> OdooModule) list"
  graph :: "DiGraph option"

text \<open>\<^verbatim>\<open>OdooModuleAnalyzer(paths)\<close>\<close>

definition new_analyzer :: "fpath list \<Rightarrow> OdooModuleAnalyzer" where
  "new_analyzer ps = \<lparr>paths = ps, modules = [], graph = None\<rparr>"

definition scanned_names :: "(string \<times> OdooModule) list \<Rightarrow> string set" where
  "scanned_names ms = fst ` set ms"

definition scanned_attrs :: "string \<Rightarrow> OdooModule \<Rightarrow> node_attrs" where
  "scanned_attrs n m =
     [(''version'', AStr (version m)),
      (''category'', AStr (category m)),
      (''application'', ABool (application m)),
      (''is_core'', ABool (n \<in> CORE_MODULES)),
      (''installable'', ABool (installable m)),
      (''path'', AStr (path m))]"

definition external_attrs :: "string \<Rightarrow> node_attrs" where
  "external_attrs dep =
     [(''is_external'', ABool True), (''is_core'', ABool (dep \<in> CORE_MODULES))]"

text \<open>The body of the inner loop of \<^verbatim>\<open>build_dependency_graph\<close>, for one dependency.\<close>

definition add_dependency :: "string \<Rightarrow> string \<Rightarrow> DiGraph \<Rightarrow> DiGraph" where
  "add_dependency n dep G =
     add_edge (if \<not> has_node G dep then add_node G dep (external_attrs dep) else G) n dep"

definition add_module_nodes :: "(string \<times> OdooModule) list \<Rightarrow> DiGraph \<Rightarrow> DiGraph" where
  "add_module_nodes ms G = fold (\<lambda>(n, m) H. add_node H n (scanned_attrs n m)) ms G"

definition add_module_edges :: "(string \<times> OdooModule) list \<Rightarrow> DiGraph \<Rightarrow> DiGraph" where
  "add_module_edges ms G = fold (\<lambda>(n, m) H. fold (add_dependency n) (depends m) H) ms G"

text \<open>The graph that \<^verbatim>\<open>build_dependency_graph\<close> builds from a module dictionary.\<close>

definition build_graph :: "(string \<times> OdooModule) list \<Rightarrow> DiGraph" where
  "build_graph ms = add_module_edges ms (add_module_nodes ms empty_graph)"

text \<open>The method: it stores the graph in the analyzer and returns it.\<close>

definition build_dependency_graph :: "OdooModuleAnalyzer \<Rightarrow> DiGraph \<times> OdooModuleAnalyzer" where
  "build_dependency_graph a =
     (let G = build_graph (modules a) in (G, a\<lparr>graph := Some G\<rparr>))"

text \<open>
  Every query starts with \<^verbatim>\<open>if self.graph is None: self.build_dependency_graph()\<close>.
\<close>

definition ensure_graph :: "OdooModuleAnalyzer \<Rightarrow> DiGraph \<times> OdooModuleAnalyzer" where
  "ensure_graph a =
     (case graph a of None \<Rightarrow> build_dependency_graph a | Some G \<Rightarrow> (G, a))"

section \<open>Graph algorithms of the networkx library\<close>

text \<open>
  The exceptions that reach the analyzer: \<^verbatim>\<open>NetworkXUnfeasible\<close> (no topological
  order), \<^verbatim>\<open>RuntimeError\<close> (the library found its graph changed during iteration),
  \<^verbatim>\<open>NetworkXError\<close> (a traversal from a node that is not in the graph) and the
  \<^verbatim>\<open>ValueError\<close> that \<^verbatim>\<open>compare_versions\<close> raises.
\<close>

datatype error = NetworkXUnfeasible | RuntimeError | NetworkXError | ValueError

subsection \<open>Topological sort\<close>

text \<open>
  \<^verbatim>\<open>nx.topological_sort\<close> yields the nodes of \<^verbatim>\<open>nx.topological_generations\<close>.
  That generator keeps a dictionary of the positive in-degrees and the list of the nodes
  of in-degree zero; for each node of the current generation it decrements the entry of
  every child, and a child whose entry reaches zero is removed from the dictionary and
  put into the next generation. When no node is left with in-degree zero and the
  dictionary is not empty it raises \<^verbatim>\<open>NetworkXUnfeasible\<close>. A missing dictionary
  entry (\<^verbatim>\<open>KeyError\<close>) or a node that is not in the graph is a
  \<^verbatim>\<open>RuntimeError\<close>.
\<close>

type_synonym indegree_map = "(string \<times> int) list"

definition in_degree :: "DiGraph \<Rightarrow> string \<Rightarrow> int" where
  "in_degree G v = int (length (predecessors G v))"

fun visit_children ::
  "string list \<Rightarrow> indegree_map \<Rightarrow> string list \<Rightarrow> error + (indegree_map \<times> string list)" where
  "visit_children [] im zero = Inr (im, zero)"
| "visit_children (child # cs) im zero =
     (case map_of im child of
        None \<Rightarrow> Inl RuntimeError
      | Some d \<Rightarrow>
          (if d - 1 = 0
           then visit_children cs (AList.delete child im) (zero @ [child])
           else visit_children cs (AList.update child (d - 1) im) zero))"

fun visit_generation ::
  "DiGraph \<Rightarrow> string list \<Rightarrow> indegree_map \<Rightarrow> string list \<Rightarrow>
   error + (indegree_map \<times> string list)" where
  "visit_generation G [] im zero = Inr (im, zero)"
| "visit_generation G (n # ns) im zero =
     (if \<not> has_node G n then Inl RuntimeError
      else case visit_children (successors G n) im zero of
             Inl e \<Rightarrow> Inl e
           | Inr (im1, zero1) \<Rightarrow> visit_generation G ns im1 zero1)"

lemma length_delete_less:
  "k \<in> fst ` set al \<Longrightarrow> length (AList.delete k al) < length al"
proof (induction al)
  case Nil
  then show ?case by simp
next
  case (Cons p al)
  have le: "length (AList.delete k al) \<le> length al"
    by (rule length_delete_le)
  show ?case
  proof (cases "fst p = k")
    case True
    with le show ?thesis by (cases p) (simp add: le_imp_less_Suc)
  next
    case False
    with Cons show ?thesis by (cases p) auto
  qed
qed

lemma length_update_mem:
  "k \<in> fst ` set al \<Longrightarrow> length (AList.update k v al) = length al"
proof -
  assume "k \<in> fst ` set al"
  then have "map fst (AList.update k v al) = map fst al"
    by (simp add: update_keys)
  then have "length (map fst (AList.update k v al)) = length (map fst al)"
    by simp
  then show ?thesis by simp
qed

lemma visit_children_length:
  "visit_children cs im zero = Inr (im1, zero1) \<Longrightarrow>
   length im1 + length zero1 \<le> length im + length zero \<and> length zero \<le> length zero1"
proof (induction cs arbitrary: im zero)
  case Nil
  then show ?case by simp
next
  case (Cons c cs)
  from Cons.prems obtain d where d: "map_of im c = Some d"
    by (auto split: option.splits)
  then have mem: "c \<in> fst ` set im"
    by (force dest: map_of_SomeD)
  show ?case
  proof (cases "d - 1 = 0")
    case True
    with Cons.prems d
    have "visit_children cs (AList.delete c im) (zero @ [c]) = Inr (im1, zero1)"
      by simp
    from Cons.IH [OF this] length_delete_less [OF mem] show ?thesis by simp
  next
    case False
    with Cons.prems d
    have "visit_children cs (AList.update c (d - 1) im) zero = Inr (im1, zero1)"
      by simp
    from Cons.IH [OF this] mem show ?thesis by (simp add: length_update_mem)
  qed
qed

lemma visit_generation_length:
  "visit_generation G ns im zero = Inr (im1, zero1) \<Longrightarrow>
   length im1 + length zero1 \<le> length im + length zero \<and> length zero \<le> length zero1"
proof (induction ns arbitrary: im zero)
  case Nil
  then show ?case by simp
next
  case (Cons n ns)
  from Cons.prems obtain im2 zero2 where
    s1: "visit_children (successors G n) im zero = Inr (im2, zero2)" and
    s2: "visit_generation G ns im2 zero2 = Inr (im1, zero1)"
    by (auto split: if_splits sum.splits)
  from visit_children_length [OF s1] Cons.IH [OF s2] show ?case by linarith
qed

function generations_loop ::
  "DiGraph \<Rightarrow> indegree_map \<Rightarrow> string list \<Rightarrow> error + string list list" where
  "generations_loop G im zero =
     (if zero = [] then (if im = [] then Inr [] else Inl NetworkXUnfeasible)
      else case visit_generation G zero im [] of
             Inl e \<Rightarrow> Inl e
           | Inr (im1, zero1) \<Rightarrow>
               (case generations_loop G im1 zero1 of
                  Inl e \<Rightarrow> Inl e
                | Inr gens \<Rightarrow> Inr (zero # gens)))"
  by pat_completeness auto
termination
proof (relation "measure (\<lambda>(G, im, zero). 2 * length im + (if zero = [] then 0 else 1))",
    goal_cases)
  case 1
  then show ?case by simp
next
  case (2 G im zero x im1 zero1)
  then have "visit_generation G zero im [] = Inr (im1, zero1)" by simp
  from visit_generation_length [OF this]
  have le: "length im1 + length zero1 \<le> length im" by simp
  show ?case
  proof (cases "zero1 = []")
    case True
    with le 2(1) show ?thesis by simp
  next
    case False
    then have "0 < length zero1" by simp
    with le have "length im1 < length im" by linarith
    with 2(1) show ?thesis by simp
  qed
qed

definition topological_generations :: "DiGraph \<Rightarrow> error + string list list" where
  "topological_generations G =
     generations_loop G
       (filter (\<lambda>(v, d). d > 0) (map (\<lambda>v. (v, in_degree G v)) (nodes G)))
       (filter (\<lambda>v. in_degree G v = 0) (nodes G))"

definition topological_sort :: "DiGraph \<Rightarrow> error + string list" where
  "topological_sort G =
     (case topological_generations G of Inl e \<Rightarrow> Inl e | Inr gens \<Rightarrow> Inr (concat gens))"

subsection \<open>Breadth-first search, descendants and ancestors\<close>

text \<open>
  \<^verbatim>\<open>nx.descendants(G, s)\<close> is the set of the children of the edges that a
  breadth-first search from \<open>s\<close> yields; \<^verbatim>\<open>nx.ancestors\<close> is the same search along
  the predecessors. The search goes level by level: each child of a node of the current
  level that has not been seen is marked seen and joins the next level. Both raise
  \<^verbatim>\<open>NetworkXError\<close> when the source is not a node of the graph.
\<close>

definition neighbors :: "bool \<Rightarrow> DiGraph \<Rightarrow> string \<Rightarrow> string list" where
  "neighbors bw G u = (if bw then predecessors G u else successors G u)"

fun bfs_children :: "string list \<Rightarrow> string list \<Rightarrow> string list \<Rightarrow> string list \<times> string list" where
  "bfs_children [] seen nxt = (seen, nxt)"
| "bfs_children (c # cs) seen nxt =
     (if c \<in> set seen then bfs_children cs seen nxt
      else bfs_children cs (seen @ [c]) (nxt @ [c]))"

fun bfs_level ::
  "bool \<Rightarrow> DiGraph \<Rightarrow> string list \<Rightarrow> string list \<Rightarrow> string list \<Rightarrow> string list \<times> string list" where
  "bfs_level bw G [] seen nxt = (seen, nxt)"
| "bfs_level bw G (p # ps) seen nxt =
     (case bfs_children (neighbors bw G p) seen nxt of
        (seen1, nxt1) \<Rightarrow> bfs_level bw G ps seen1 nxt1)"

definition endpoints :: "DiGraph \<Rightarrow> string set" where
  "endpoints G = fst ` set (adj G) \<union> snd ` set (adj G)"

lemma bfs_children_new:
  "bfs_children cs seen nxt = (seen1, nxt1) \<Longrightarrow>
   \<exists>new. seen1 = seen @ new \<and> nxt1 = nxt @ new \<and> set new \<subseteq> set cs - set seen"
proof (induction cs arbitrary: seen nxt)
  case Nil
  then show ?case by simp
next
  case (Cons c cs)
  show ?case
  proof (cases "c \<in> set seen")
    case True
    with Cons.prems have "bfs_children cs seen nxt = (seen1, nxt1)" by simp
    from Cons.IH [OF this] show ?thesis by auto
  next
    case False
    with Cons.prems have "bfs_children cs (seen @ [c]) (nxt @ [c]) = (seen1, nxt1)" by simp
    from Cons.IH [OF this] obtain new where
      "seen1 = (seen @ [c]) @ new" "nxt1 = (nxt @ [c]) @ new"
      "set new \<subseteq> set cs - set (seen @ [c])" by blast
    with False have "seen1 = seen @ (c # new) \<and> nxt1 = nxt @ (c # new) \<and>
      set (c # new) \<subseteq> set (c # cs) - set seen" by auto
    then show ?thesis by blast
  qed
qed

lemma neighbors_endpoints: "set (neighbors bw G u) \<subseteq> endpoints G"
  by (auto simp: neighbors_def predecessors_def successors_def endpoints_def)

lemma bfs_level_new:
  "bfs_level bw G ps seen nxt = (seen1, nxt1) \<Longrightarrow>
   \<exists>new. seen1 = seen @ new \<and> nxt1 = nxt @ new \<and> set new \<subseteq> endpoints G - set seen"
proof (induction ps arbitrary: seen nxt)
  case Nil
  then show ?case by simp
next
  case (Cons p ps)
  from Cons.prems obtain seen2 nxt2 where
    s1: "bfs_children (neighbors bw G p) seen nxt = (seen2, nxt2)" and
    s2: "bfs_level bw G ps seen2 nxt2 = (seen1, nxt1)"
    by (auto split: prod.splits)
  from bfs_children_new [OF s1] obtain n1 where
    n1: "seen2 = seen @ n1" "nxt2 = nxt @ n1" "set n1 \<subseteq> set (neighbors bw G p) - set seen"
    by blast
  from Cons.IH [OF s2] obtain n2 where
    n2: "seen1 = seen2 @ n2" "nxt1 = nxt2 @ n2" "set n2 \<subseteq> endpoints G - set seen2"
    by blast
  from n1 n2 neighbors_endpoints [of bw G p]
  have "seen1 = seen @ (n1 @ n2) \<and> nxt1 = nxt @ (n1 @ n2) \<and>
     set (n1 @ n2) \<subseteq> endpoints G - set seen" by auto
  then show ?case by blast
qed

function bfs_loop :: "bool \<Rightarrow> DiGraph \<Rightarrow> string list \<Rightarrow> string list \<Rightarrow> string list" where
  "bfs_loop bw G frontier seen =
     (if frontier = [] then seen
      else case bfs_level bw G frontier seen [] of
             (seen1, nxt) \<Rightarrow> bfs_loop bw G nxt seen1)"
  by pat_completeness auto
termination
proof (relation "measures [\<lambda>(bw, G, frontier, seen). card (endpoints G - set seen),
                           \<lambda>(bw, G, frontier, seen). length frontier]", goal_cases)
  case 1
  then show ?case by simp
next
  case (2 bw G frontier seen seen1 nxt)
  then have "bfs_level bw G frontier seen [] = (seen1, nxt)" by simp
  from bfs_level_new [OF this] obtain new where
    new: "seen1 = seen @ new" "nxt = new" "set new \<subseteq> endpoints G - set seen" by auto
  have fin: "finite (endpoints G - set seen)" by (simp add: endpoints_def)
  show ?case
  proof (cases "new = []")
    case True
    with new 2(1) show ?thesis by simp
  next
    case False
    then obtain y where y: "y \<in> set new" by (cases new) auto
    with new have "endpoints G - set seen1 \<subset> endpoints G - set seen" by auto
    from psubset_card_mono [OF fin this] show ?thesis by simp
  qed
qed

definition bfs_reached :: "bool \<Rightarrow> DiGraph \<Rightarrow> string \<Rightarrow> error + string set" where
  "bfs_reached bw G source =
     (if \<not> has_node G source then Inl NetworkXError
      else Inr (set (bfs_loop bw G [source] [source]) - {source}))"

definition descendants :: "DiGraph \<Rightarrow> string \<Rightarrow> error + string set" where
  "descendants G source = bfs_reached False G source"

definition ancestors :: "DiGraph \<Rightarrow> string \<Rightarrow> error + string set" where
  "ancestors G source = bfs_reached True G source"

subsection \<open>Elementary cycles\<close>

text \<open>
  \<^verbatim>\<open>nx.simple_cycles(G)\<close> yields every elementary cycle of \<open>G\<close> once, as the list of
  its nodes: first the self-loops, then, on the graph without self-loops, for one start
  node after the other, the cycles through that node, the start node being removed from
  the graph afterwards. Which node of a strongly connected component the library starts
  from depends on the iteration order of a Python set; the model starts from the nodes in
  node order. A cycle through the start node is a path that returns to it without
  visiting a node twice.
\<close>

function cycles_through ::
  "DiGraph \<Rightarrow> string \<Rightarrow> string list \<Rightarrow> string \<Rightarrow> string list \<Rightarrow> string list list" where
  "cycles_through G root avail cur trail =
     concat (map (\<lambda>v. if v = root then [trail]
                       else if v \<in> set avail
                            then cycles_through G root (removeAll v avail) v (trail @ [v])
                            else [])
                 (successors G cur))"
  by pat_completeness auto
termination
proof (relation "measure (\<lambda>(G, root, avail, cur, trail). length avail)", goal_cases)
  case 1
  then show ?case by simp
next
  case (2 G root avail cur trail v)
  then show ?case by (simp add: length_removeAll_less)
qed

fun cycle_search :: "DiGraph \<Rightarrow> string list \<Rightarrow> string list list" where
  "cycle_search G [] = []"
| "cycle_search G (v # rest) = cycles_through G v rest v [v] @ cycle_search G rest"

definition simple_cycles :: "DiGraph \<Rightarrow> string list list" where
  "simple_cycles G =
     map (\<lambda>v. [v]) (filter (\<lambda>v. has_edge G v v) (nodes G)) @
     cycle_search (G\<lparr>adj := filter (\<lambda>(u, v). v \<noteq> u) (adj G)\<rparr>) (nodes G)"

section \<open>Queries of the analyzer\<close>

definition get_all_dependencies ::
  "OdooModuleAnalyzer \<Rightarrow> string \<Rightarrow> bool \<Rightarrow> (error + string set) \<times> OdooModuleAnalyzer" where
  "get_all_dependencies a module_name include_core =
     (case ensure_graph a of
        (G, a1) \<Rightarrow>
          if \<not> has_node G module_name then (Inr {}, a1)
          else (case descendants G module_name of
                  Inl e \<Rightarrow> (Inl e, a1)
                | Inr deps \<Rightarrow>
                    (Inr (if \<not> include_core then {d \<in> deps. d \<notin> CORE_MODULES} else deps),
                     a1)))"

definition get_reverse_dependencies ::
  "OdooModuleAnalyzer \<Rightarrow> string \<Rightarrow> (error + string set) \<times> OdooModuleAnalyzer" where
  "get_reverse_dependencies a module_name =
     (case ensure_graph a of
        (G, a1) \<Rightarrow>
          if \<not> has_node G module_name then (Inr {}, a1)
          else (ancestors G module_name, a1))"

text \<open>
  \<^verbatim>\<open>find_circular_dependencies\<close>: the list of the cycles. (Its \<^verbatim>\<open>except\<close> branch
  returns the empty list; the model of \<^verbatim>\<open>simple_cycles\<close> does not raise.)
\<close>

definition find_circular_dependencies ::
  "OdooModuleAnalyzer \<Rightarrow> string list list \<times> OdooModuleAnalyzer" where
  "find_circular_dependencies a =
     (case ensure_graph a of (G, a1) \<Rightarrow> (simple_cycles G, a1))"

text \<open>
  The loop of \<^verbatim>\<open>get_install_order\<close> that collects, for each requested name, the
  name and \<^verbatim>\<open>get_all_dependencies(name)\<close>.
\<close>

fun required_modules ::
  "OdooModuleAnalyzer \<Rightarrow> string list \<Rightarrow> string set \<Rightarrow>
   (error + string set) \<times> OdooModuleAnalyzer" where
  "required_modules a [] required = (Inr required, a)"
| "required_modules a (n # ns) required =
     (case get_all_dependencies a n True of
        (Inl e, a1) \<Rightarrow> (Inl e, a1)
      | (Inr deps, a1) \<Rightarrow> required_modules a1 ns (insert n required \<union> deps))"

text \<open>
  \<^verbatim>\<open>get_install_order(module_names)\<close>: only \<^verbatim>\<open>NetworkXUnfeasible\<close> is caught,
  and answered with the empty list. \<^verbatim>\<open>if module_names:\<close> is false for \<^verbatim>\<open>None\<close>
  and for the empty list.
\<close>

definition get_install_order ::
  "OdooModuleAnalyzer \<Rightarrow> string list option \<Rightarrow> (error + string list) \<times> OdooModuleAnalyzer" where
  "get_install_order a module_names =
     (case ensure_graph a of
        (G, a1) \<Rightarrow>
          (case topological_sort (reverse G) of
             Inl NetworkXUnfeasible \<Rightarrow> (Inr [], a1)
           | Inl e \<Rightarrow> (Inl e, a1)
           | Inr order \<Rightarrow>
               (case module_names of
                  None \<Rightarrow> (Inr order, a1)
                | Some [] \<Rightarrow> (Inr order, a1)
                | Some ns \<Rightarrow>
                    (case required_modules a1 ns {} of
                       (Inl e, a2) \<Rightarrow> (Inl e, a2)
                     | (Inr required, a2) \<Rightarrow>
                         (Inr (filter (\<lambda>m. m \<in> required) order), a2)))))"

section \<open>The module scanner\<close>

text \<open>
  The file system that the scanner reads: a file with its text, or a directory with its
  entries in the order in which \<^verbatim>\<open>iterdir\<close> lists them. The flag of a directory says
  whether it may be listed; listing a directory that may not be listed raises
  \<^verbatim>\<open>PermissionError\<close>.
\<close>

datatype fsnode = File string | Dir bool "(string \<times> fsnode) list"

fun lookup :: "fsnode \<Rightarrow> fpath \<Rightarrow> fsnode option" where
  "lookup n [] = Some n"
| "lookup (File txt) (c # cs) = None"
| "lookup (Dir r es) (c # cs) = (case map_of es c of None \<Rightarrow> None | Some n \<Rightarrow> lookup n cs)"

definition exists_path :: "fsnode \<Rightarrow> fpath \<Rightarrow> bool" where
  "exists_path fs p = (lookup fs p \<noteq> None)"

definition is_dir :: "fsnode \<Rightarrow> fpath \<Rightarrow> bool" where
  "is_dir fs p = (case lookup fs p of Some (Dir r es) \<Rightarrow> True | _ \<Rightarrow> False)"

text \<open>\<^verbatim>\<open>path.iterdir()\<close>: the names of the entries, or \<^verbatim>\<open>None\<close> for \<^verbatim>\<open>PermissionError\<close>.\<close>

definition iterdir :: "fsnode \<Rightarrow> fpath \<Rightarrow> string list option" where
  "iterdir fs p =
     (case lookup fs p of
        Some (Dir r es) \<Rightarrow> (if r then Some (map fst es) else None)
      | _ \<Rightarrow> None)"

text \<open>\<^verbatim>\<open>path.name\<close> and \<^verbatim>\<open>str(path)\<close>\<close>

definition path_name :: "fpath \<Rightarrow> string" where
  "path_name p = (if p = [] then [] else last p)"

definition path_str :: "fpath \<Rightarrow> string" where
  "path_str p = (if p = [] then ''/'' else concat (map (\<lambda>c. ''/'' @ c) p))"

text \<open>\<^verbatim>\<open>_is_odoo_module\<close>\<close>

definition is_odoo_module :: "fsnode \<Rightarrow> fpath \<Rightarrow> bool" where
  "is_odoo_module fs p =
     (if \<not> exists_path fs (p @ [''__init__.py'']) then False
      else exists_path fs (p @ [''__manifest__.py'']) \<or> exists_path fs (p @ [''__openerp__.py'']))"

text \<open>
  What \<^verbatim>\<open>_safe_parse_manifest\<close> returns when it returns a dictionary: the recognised
  keys, each present or absent. The parser itself (Python's literal evaluation, then
  regular expressions) is a parameter of the scanner: a function from the text of a
  manifest to such a dictionary, or to \<^verbatim>\<open>None\<close>.
\<close>

record manifest =
  mf_version :: "string option"
  mf_summary :: "string option"
  mf_description :: "string option"
  mf_author :: "string option"
  mf_category :: "string option"
  mf_depends :: "string list option"
  mf_data :: "string list option"
  mf_installable :: "bool option"
  mf_application :: "bool option"
  mf_auto_install :: "bool option"
  mf_license :: "string option"

definition empty_manifest :: manifest where
  "empty_manifest =
     \<lparr>mf_version = None, mf_summary = None, mf_description = None, mf_author = None,
      mf_category = None, mf_depends = None, mf_data = None, mf_installable = None,
      mf_application = None, mf_auto_install = None, mf_license = None\<rparr>"

text \<open>\<^verbatim>\<open>d.get(k, default)\<close>\<close>

definition get_or :: "'a option \<Rightarrow> 'a \<Rightarrow> 'a" where
  "get_or v dflt = (case v of None \<Rightarrow> dflt | Some x \<Rightarrow> x)"

text \<open>
  \<^verbatim>\<open>_parse_module\<close>: the manifest is \<^verbatim>\<open>__manifest__.py\<close> or else
  \<^verbatim>\<open>__openerp__.py\<close>; a manifest that cannot be read as a file or parsed gives
  \<^verbatim>\<open>None\<close>. The module is named after its directory.
\<close>

definition parse_module ::
  "(string \<Rightarrow> manifest option) \<Rightarrow> fsnode \<Rightarrow> fpath \<Rightarrow> OdooModule option" where
  "parse_module safe_parse_manifest fs p =
     (let manifest_path =
            (if exists_path fs (p @ [''__manifest__.py'']) then p @ [''__manifest__.py'']
             else p @ [''__openerp__.py''])
      in case lookup fs manifest_path of
           Some (File content) \<Rightarrow>
             (case safe_parse_manifest content of
                None \<Rightarrow> None
              | Some md \<Rightarrow>
                  Some \<lparr>name = path_name p, path = path_str p,
                        version = get_or (mf_version md) ''1.0'',
                        summary = get_or (mf_summary md) [],
                        description = get_or (mf_description md) [],
                        author = get_or (mf_author md) [],
                        category = get_or (mf_category md) [],
                        depends = get_or (mf_depends md) [],
                        data = get_or (mf_data md) [],
                        installable = get_or (mf_installable md) True,
                        application = get_or (mf_application md) False,
                        auto_install = get_or (mf_auto_install md) False,
                        license = get_or (mf_license md) ''LGPL-3''\<rparr>)
         | _ \<Rightarrow> None)"

text \<open>\<^verbatim>\<open>if module: self.modules[module.name] = module\<close>\<close>

definition store_module ::
  "OdooModule option \<Rightarrow> (string \<times> OdooModule) list \<Rightarrow> (string \<times> OdooModule) list" where
  "store_module r ms = (case r of None \<Rightarrow> ms | Some m \<Rightarrow> AList.update (name m) m ms)"

definition starts_with_dot :: "string \<Rightarrow> bool" where
  "starts_with_dot s = (case s of [] \<Rightarrow> False | c # cs \<Rightarrow> c = CHR ''.'')"

text \<open>The innermost loop of \<^verbatim>\<open>_scan_directory\<close>, over the entries one level deeper.\<close>

fun scan_subitems ::
  "(string \<Rightarrow> manifest option) \<Rightarrow> fsnode \<Rightarrow> fpath \<Rightarrow> string list \<Rightarrow>
   (string \<times> OdooModule) list \<Rightarrow> (string \<times> OdooModule) list" where
  "scan_subitems pm fs item [] ms = ms"
| "scan_subitems pm fs item (subitem # rest) ms =
     (if is_dir fs (item @ [subitem]) \<and> is_odoo_module fs (item @ [subitem])
      then scan_subitems pm fs item rest (store_module (parse_module pm fs (item @ [subitem])) ms)
      else scan_subitems pm fs item rest ms)"

text \<open>
  The loop of \<^verbatim>\<open>_scan_directory\<close> over the entries of the directory. A
  \<^verbatim>\<open>PermissionError\<close> ends the loop; the modules stored so far stay.
\<close>

fun scan_items ::
  "(string \<Rightarrow> manifest option) \<Rightarrow> fsnode \<Rightarrow> fpath \<Rightarrow> string list \<Rightarrow>
   (string \<times> OdooModule) list \<Rightarrow> (string \<times> OdooModule) list" where
  "scan_items pm fs directory [] ms = ms"
| "scan_items pm fs directory (item # rest) ms =
     (if is_dir fs (directory @ [item]) \<and> \<not> starts_with_dot item
      then (if is_odoo_module fs (directory @ [item])
            then scan_items pm fs directory rest
                   (store_module (parse_module pm fs (directory @ [item])) ms)
            else (case iterdir fs (directory @ [item]) of
                    None \<Rightarrow> ms
                  | Some subitems \<Rightarrow>
                      scan_items pm fs directory rest
                        (scan_subitems pm fs (directory @ [item]) subitems ms)))
      else scan_items pm fs directory rest ms)"

text \<open>\<^verbatim>\<open>_scan_directory\<close>\<close>

definition scan_directory ::
  "(string \<Rightarrow> manifest option) \<Rightarrow> fsnode \<Rightarrow> fpath \<Rightarrow>
   (string \<times> OdooModule) list \<Rightarrow> (string \<times> OdooModule) list" where
  "scan_directory pm fs directory ms =
     (if is_odoo_module fs directory then store_module (parse_module pm fs directory) ms
      else case iterdir fs directory of
             None \<Rightarrow> ms
           | Some items \<Rightarrow> scan_items pm fs directory items ms)"

text \<open>\<^verbatim>\<open>scan_modules\<close>: the module dictionary is cleared and filled again.\<close>

definition scan_modules ::
  "(string \<Rightarrow> manifest option) \<Rightarrow> fsnode \<Rightarrow> OdooModuleAnalyzer \<Rightarrow>
   (string \<times> OdooModule) list \<times> OdooModuleAnalyzer" where
  "scan_modules pm fs a =
     (let ms = fold (\<lambda>base_path ms.
                       if \<not> exists_path fs base_path then ms
                       else if is_dir fs base_path then scan_directory pm fs base_path ms
                       else ms)
                    (paths a) []
      in (ms, a\<lparr>modules := ms\<rparr>))"

section \<open>The model analyzer\<close>

text \<open>
  The part of Python's syntax tree that \<^verbatim>\<open>ModelAnalyzer\<close> inspects. A constant is a
  string, an integer, a truth value or \<^verbatim>\<open>None\<close>; a call has a function, positional
  arguments and keyword arguments (the keyword is absent for \<^verbatim>\<open>**kwargs\<close>); every
  other expression is \<open>OtherExpr\<close>, every statement that is neither an assignment nor a
  function definition is \<open>OtherStmt\<close>.
\<close>

datatype pyconst = CStr string | CInt int | CBool bool | CNone

datatype expr =
    Constant pyconst
  | Name string
  | Attribute expr string
  | Call expr "expr list" "(string option \<times> expr) list"
  | ListE "expr list"
  | TupleE "expr list"
  | DictE "(expr option \<times> expr) list"
  | OtherExpr

datatype stmt = Assign "expr list" expr | FunctionDef string | OtherStmt

record ClassDef =
  class_name :: string
  body :: "stmt list"

text \<open>The Python values that \<^verbatim>\<open>_get_value\<close> returns.\<close>

datatype pyval = VStr string | VInt int | VBool bool | VNone | VList "pyval list"

definition FIELD_TYPES :: "string set" where
  "FIELD_TYPES = set
     [''Char'', ''Text'', ''Html'', ''Integer'', ''Float'', ''Monetary'',
      ''Boolean'', ''Date'', ''Datetime'', ''Binary'', ''Image'',
      ''Selection'', ''Reference'', ''Many2one'', ''One2many'', ''Many2many'']"

text \<open>Truth and \<^verbatim>\<open>str\<close> of a constant.\<close>

fun truthy :: "pyconst \<Rightarrow> bool" where
  "truthy (CStr s) = (s \<noteq> [])"
| "truthy (CInt i) = (i \<noteq> 0)"
| "truthy (CBool b) = b"
| "truthy CNone = False"

definition digit_char :: "nat \<Rightarrow> char" where
  "digit_char d = char_of (48 + d)"

fun str_nat :: "nat \<Rightarrow> string" where
  "str_nat n = (if n < 10 then [digit_char n] else str_nat (n div 10) @ [digit_char (n mod 10)])"

declare str_nat.simps [simp del]

definition str_int :: "int \<Rightarrow> string" where
  "str_int i = (if i < 0 then CHR ''-'' # str_nat (nat (- i)) else str_nat (nat i))"

fun py_str :: "pyconst \<Rightarrow> string" where
  "py_str (CStr s) = s"
| "py_str (CInt i) = str_int i"
| "py_str (CBool b) = (if b then ''True'' else ''False'')"
| "py_str CNone = ''None''"

text \<open>\<^verbatim>\<open>_get_string_value\<close>, \<^verbatim>\<open>_get_bool_value\<close> and \<^verbatim>\<open>_get_value\<close>\<close>

fun get_string_value :: "expr \<Rightarrow> string" where
  "get_string_value (Constant c) = (if truthy c then py_str c else [])"
| "get_string_value e = []"

fun get_bool_value :: "expr \<Rightarrow> bool" where
  "get_bool_value (Constant c) = truthy c"
| "get_bool_value e = False"

fun const_value :: "pyconst \<Rightarrow> pyval" where
  "const_value (CStr s) = VStr s"
| "const_value (CInt i) = VInt i"
| "const_value (CBool b) = VBool b"
| "const_value CNone = VNone"

fun get_value :: "expr \<Rightarrow> pyval" where
  "get_value (Constant c) = const_value c"
| "get_value (ListE elts) = VList (map get_value elts)"
| "get_value (TupleE elts) = VList (map get_value elts)"
| "get_value e = VNone"

text \<open>\<^verbatim>\<open>_parse_dict\<close>: the entries whose key has a non-empty string value.\<close>

fun parse_dict :: "(expr option \<times> expr) list \<Rightarrow> (string \<times> string) list \<Rightarrow> (string \<times> string) list" where
  "parse_dict [] result = result"
| "parse_dict ((k, v) # rest) result =
     (let ks = (case k of None \<Rightarrow> [] | Some ke \<Rightarrow> get_string_value ke)
      in if ks \<noteq> [] then parse_dict rest (AList.update ks (get_string_value v) result)
         else parse_dict rest result)"

text \<open>\<^verbatim>\<open>_is_field_definition\<close>: a call \<^verbatim>\<open>fields.T(...)\<close> with \<open>T\<close> a field type.\<close>

fun is_field_definition :: "expr \<Rightarrow> bool" where
  "is_field_definition (Call (Attribute (Name n) attr) args kws) =
     (if n = ''fields'' then attr \<in> FIELD_TYPES else False)"
| "is_field_definition e = False"

record ModelField =
  field_name :: string
  field_type :: string
  comodel_name :: pyconst
  related :: "string option"
  compute :: "string option"
  store :: bool
  required :: bool
  readonly :: bool
  label :: string

text \<open>
  The keyword loop of \<^verbatim>\<open>_parse_field\<close> (the field \<^verbatim>\<open>string\<close> of the source is
  \<open>label\<close> here; an absent \<^verbatim>\<open>comodel_name\<close> is \<open>CNone\<close>).
\<close>

fun field_keywords :: "(string option \<times> expr) list \<Rightarrow> ModelField \<Rightarrow> ModelField" where
  "field_keywords [] f = f"
| "field_keywords ((k, v) # rest) f =
     field_keywords rest
       (if k = Some ''comodel_name'' then f\<lparr>comodel_name := CStr (get_string_value v)\<rparr>
        else if k = Some ''related'' then f\<lparr>related := Some (get_string_value v)\<rparr>
        else if k = Some ''compute'' then f\<lparr>compute := Some (get_string_value v)\<rparr>
        else if k = Some ''store'' then f\<lparr>store := get_bool_value v\<rparr>
        else if k = Some ''required'' then f\<lparr>required := get_bool_value v\<rparr>
        else if k = Some ''readonly'' then f\<lparr>readonly := get_bool_value v\<rparr>
        else if k = Some ''string'' then f\<lparr>label := get_string_value v\<rparr>
        else f)"

text \<open>\<^verbatim>\<open>_parse_field\<close>\<close>

fun parse_field :: "string \<Rightarrow> expr \<Rightarrow> ModelField option" where
  "parse_field n (Call (Attribute obj ftype) args kws) =
     (if ftype \<notin> FIELD_TYPES then None
      else
        (let f = field_keywords kws
                   \<lparr>field_name = n, field_type = ftype, comodel_name = CNone, related = None,
                    compute = None, store = True, required = False, readonly = False,
                    label = []\<rparr>
         in Some (if ftype \<in> {''Many2one'', ''One2many'', ''Many2many''}
                  then (case args of
                          Constant c # others \<Rightarrow> f\<lparr>comodel_name := c\<rparr>
                        | _ \<Rightarrow> f)
                  else f)))"
| "parse_field n e = None"

text \<open>
  \<^verbatim>\<open>OdooModel\<close>. Its name starts as the empty string and may become any value that
  \<^verbatim>\<open>_get_value\<close> returns, or \<^verbatim>\<open>None\<close>.
\<close>

record OdooModel =
  model_name :: pyval
  inherit :: "pyval list"
  inherits :: "(string \<times> string) list"
  model_description :: string
  model_fields :: "(string \<times> ModelField) list"
  methods :: "string list"
  model_module :: string
  file_path :: string

text \<open>
  The loop of \<^verbatim>\<open>_parse_class\<close> over the targets of one assignment; the state is the
  model and the flag \<^verbatim>\<open>is_odoo_model\<close>. \<open>assign_attr\<close> is the body of the loop for a
  target that is a plain name; any other target is passed over.
\<close>

definition assign_attr :: "string \<Rightarrow> expr \<Rightarrow> OdooModel \<times> bool \<Rightarrow> OdooModel \<times> bool" where
  "assign_attr attr_name v st =
     (case st of
        (model, is_odoo_model) \<Rightarrow>
          if attr_name = ''_name''
          then (model\<lparr>model_name := VStr (get_string_value v)\<rparr>, True)
          else if attr_name = ''_inherit''
          then (case get_value v of
                  VStr s \<Rightarrow> (model\<lparr>inherit := [VStr s]\<rparr>, True)
                | VList vs \<Rightarrow> (model\<lparr>inherit := vs\<rparr>, True)
                | _ \<Rightarrow> (model, is_odoo_model))
          else if attr_name = ''_inherits''
          then (case v of
                  DictE kvs \<Rightarrow> (model\<lparr>inherits := parse_dict kvs []\<rparr>, is_odoo_model)
                | _ \<Rightarrow> (model, is_odoo_model))
          else if attr_name = ''_description''
          then (model\<lparr>model_description := get_string_value v\<rparr>, is_odoo_model)
          else if attr_name \<in> FIELD_TYPES \<or> is_field_definition v
          then (case parse_field attr_name v of
                  None \<Rightarrow> (model, is_odoo_model)
                | Some f \<Rightarrow>
                    (model\<lparr>model_fields := AList.update attr_name f (model_fields model)\<rparr>,
                     is_odoo_model))
          else (model, is_odoo_model))"

fun parse_targets :: "expr list \<Rightarrow> expr \<Rightarrow> OdooModel \<times> bool \<Rightarrow> OdooModel \<times> bool" where
  "parse_targets [] v st = st"
| "parse_targets (t # rest) v st =
     parse_targets rest v (case t of Name attr_name \<Rightarrow> assign_attr attr_name v st | _ \<Rightarrow> st)"

text \<open>
  The loop over the statements of the class body. In the source a second
  \<^verbatim>\<open>elif isinstance(item, ast.Assign)\<close> branch, which would set the flag for a field
  assignment, follows the \<^verbatim>\<open>if isinstance(item, ast.Assign)\<close> branch and is never
  reached.
\<close>

fun parse_body :: "stmt list \<Rightarrow> OdooModel \<times> bool \<Rightarrow> OdooModel \<times> bool" where
  "parse_body [] st = st"
| "parse_body (Assign targets v # rest) st = parse_body rest (parse_targets targets v st)"
| "parse_body (FunctionDef f # rest) (model, is_odoo_model) =
     parse_body rest (model\<lparr>methods := methods model @ [f]\<rparr>, is_odoo_model)"
| "parse_body (OtherStmt # rest) st = parse_body rest st"

fun py_truthy :: "pyval \<Rightarrow> bool" where
  "py_truthy (VStr s) = (s \<noteq> [])"
| "py_truthy (VInt i) = (i \<noteq> 0)"
| "py_truthy (VBool b) = b"
| "py_truthy VNone = False"
| "py_truthy (VList vs) = (vs \<noteq> [])"

text \<open>\<^verbatim>\<open>_parse_class\<close>\<close>

definition parse_class :: "ClassDef \<Rightarrow> string \<Rightarrow> string \<Rightarrow> OdooModel option" where
  "parse_class cls module_nm fpath =
     (case parse_body (body cls)
             (\<lparr>model_name = VStr [], inherit = [], inherits = [], model_description = [],
               model_fields = [], methods = [], model_module = module_nm, file_path = fpath\<rparr>,
              False) of
        (model, is_odoo_model) \<Rightarrow>
          (case (if \<not> py_truthy (model_name model) \<and> inherit model \<noteq> []
                 then (model\<lparr>model_name :=
                                (if length (inherit model) = 1 then hd (inherit model)
                                 else VNone)\<rparr>, True)
                 else (model, is_odoo_model)) of
             (model1, flag) \<Rightarrow> if flag then Some model1 else None))"

section \<open>The upgrade analyzer\<close>

text \<open>
  The messages of the source are sentences with values filled in; each kind of message is
  a constructor here, with the values it shows. A risk factor names a module that was not
  found, or the number of dependents behind a critical, high or medium level, or the number
  of models. The recommendations are fixed sentences, three for the critical level, two
  for the high level, one for each of the others.
\<close>

datatype risk_factor =
    ModuleNotFound string
  | CoreModule nat
  | HighImpact nat
  | MediumImpact nat
  | DefinesModels nat

datatype recommendation =
    TestBeforeUpgrade | PlanRollback | BackupDatabase
  | CheckAllDependents | VerifyInTestEnvironment
  | CheckDirectDependents
  | SafeToUpgrade

record UpgradeImpact =
  impact_module_name :: string
  direct_dependents :: "string list"
  all_dependents :: "string list"
  affected_models :: "string list"
  risk_level :: string
  risk_factors :: "risk_factor list"
  recommendations :: "recommendation list"

text \<open>\<^verbatim>\<open>UpgradeImpact(module_name=...)\<close>\<close>

definition UpgradeImpact_init :: "string \<Rightarrow> UpgradeImpact" where
  "UpgradeImpact_init n =
     \<lparr>impact_module_name = n, direct_dependents = [], all_dependents = [], affected_models = [],
      risk_level = ''low'', risk_factors = [], recommendations = []\<rparr>"

text \<open>
  The loop of \<^verbatim>\<open>assess_upgrade_impact\<close> that adds each listed dependent and its
  reverse dependencies to the set \<^verbatim>\<open>all_dependents\<close>.
\<close>

fun collect_dependents ::
  "OdooModuleAnalyzer \<Rightarrow> string list \<Rightarrow> string set \<Rightarrow>
   (error + string set) \<times> OdooModuleAnalyzer" where
  "collect_dependents a [] acc = (Inr acc, a)"
| "collect_dependents a (dep # deps) acc =
     (case get_reverse_dependencies a dep of
        (Inl e, a1) \<Rightarrow> (Inl e, a1)
      | (Inr rd, a1) \<Rightarrow> collect_dependents a1 deps (insert dep acc \<union> rd))"

text \<open>The risk level from the two counts and the membership in the core set.\<close>

definition base_risk :: "nat \<Rightarrow> bool \<Rightarrow> string \<times> risk_factor list" where
  "base_risk dependent_count core =
     (if dependent_count > 50 \<or> core then (''critical'', [CoreModule dependent_count])
      else if dependent_count > 20 then (''high'', [HighImpact dependent_count])
      else if dependent_count > 5 then (''medium'', [MediumImpact dependent_count])
      else (''low'', []))"

definition recommend :: "string \<Rightarrow> recommendation list" where
  "recommend level =
     (if level = ''critical'' then [TestBeforeUpgrade, PlanRollback, BackupDatabase]
      else if level = ''high'' then [CheckAllDependents, VerifyInTestEnvironment]
      else if level = ''medium'' then [CheckDirectDependents]
      else [SafeToUpgrade])"

text \<open>
  \<^verbatim>\<open>assess_upgrade_impact(module_name, analyzer)\<close>. The analysis of the module's source
  files is a parameter: \<open>analyze_module\<close> gives, for the path of a module, the sorted names
  of the models that \<^verbatim>\<open>ModelAnalyzer().analyze_module(path)\<close> finds there.
\<close>

definition assess_upgrade_impact ::
  "(string \<Rightarrow> string list) \<Rightarrow> string \<Rightarrow> OdooModuleAnalyzer \<Rightarrow>
   (error + UpgradeImpact) \<times> OdooModuleAnalyzer" where
  "assess_upgrade_impact analyze_module mname analyzer =
     (case map_of (modules analyzer) mname of
        None \<Rightarrow>
          (Inr ((UpgradeImpact_init mname)
                  \<lparr>risk_level := ''critical'', risk_factors := [ModuleNotFound mname]\<rparr>),
           analyzer)
      | Some md \<Rightarrow>
          (case get_reverse_dependencies analyzer mname of
             (Inl e, a1) \<Rightarrow> (Inl e, a1)
           | (Inr rd, a1) \<Rightarrow>
               (case collect_dependents a1 (sorted_list_of_set rd) {} of
                  (Inl e, a2) \<Rightarrow> (Inl e, a2)
                | (Inr alld, a2) \<Rightarrow>
                    (let direct = sorted_list_of_set rd;
                         every = sorted_list_of_set alld;
                         affected = analyze_module (path md);
                         dependent_count = length every;
                         model_count = length affected;
                         base = base_risk dependent_count (mname \<in> CORE_MODULES);
                         level = (if model_count > 10 \<and> fst base = ''low'' then ''medium''
                                  else fst base);
                         factors = snd base @
                                   (if model_count > 10 then [DefinesModels model_count] else [])
                     in (Inr \<lparr>impact_module_name = mname, direct_dependents = direct,
                              all_dependents = every, affected_models = affected,
                              risk_level = level, risk_factors = factors,
                              recommendations = recommend level\<rparr>,
                         a2)))))"

text \<open>
  The differences that \<^verbatim>\<open>_compare_module\<close> reports: the version (old, new), the
  category (old, new), the application flag (new value), the dependency set.
\<close>

datatype change =
    VersionChanged string string
  | CategoryChanged string string
  | ApplicationChanged bool
  | DependenciesChanged

definition compare_module :: "OdooModule \<Rightarrow> OdooModule \<Rightarrow> change list" where
  "compare_module src tgt =
     (if version src \<noteq> version tgt then [VersionChanged (version src) (version tgt)] else []) @
     (if category src \<noteq> category tgt then [CategoryChanged (category src) (category tgt)]
      else []) @
     (if application src \<noteq> application tgt then [ApplicationChanged (application tgt)] else []) @
     (if set (depends src) \<noteq> set (depends tgt) then [DependenciesChanged] else [])"

record dependency_change =
  dc_module :: string
  added_dependencies :: "string list"
  removed_dependencies :: "string list"

record VersionDiff =
  added_modules :: "string list"
  removed_modules :: "string list"
  modified_modules :: "(string \<times> change list) list"
  dependency_changes :: "dependency_change list"

text \<open>
  The state of an \<^verbatim>\<open>UpgradeAnalyzer\<close> that \<^verbatim>\<open>compare_versions\<close> reads: the two
  analyzers, \<^verbatim>\<open>None\<close> until \<^verbatim>\<open>load_source\<close> and \<^verbatim>\<open>load_target\<close> set them.
\<close>

record UpgradeAnalyzer =
  source_analyzer :: "OdooModuleAnalyzer option"
  target_analyzer :: "OdooModuleAnalyzer option"

text \<open>\<^verbatim>\<open>UpgradeAnalyzer()\<close>\<close>

definition UpgradeAnalyzer_init :: UpgradeAnalyzer where
  "UpgradeAnalyzer_init = \<lparr>source_analyzer = None, target_analyzer = None\<rparr>"

definition load_analyzer ::
  "(string \<Rightarrow> manifest option) \<Rightarrow> fsnode \<Rightarrow> fpath list \<Rightarrow> OdooModuleAnalyzer" where
  "load_analyzer pm fs ps =
     snd (build_dependency_graph (snd (scan_modules pm fs (new_analyzer ps))))"

definition load_source ::
  "(string \<Rightarrow> manifest option) \<Rightarrow> fsnode \<Rightarrow> fpath list \<Rightarrow> UpgradeAnalyzer \<Rightarrow> UpgradeAnalyzer" where
  "load_source pm fs ps ua = ua\<lparr>source_analyzer := Some (load_analyzer pm fs ps)\<rparr>"

definition load_target ::
  "(string \<Rightarrow> manifest option) \<Rightarrow> fsnode \<Rightarrow> fpath list \<Rightarrow> UpgradeAnalyzer \<Rightarrow> UpgradeAnalyzer" where
  "load_target pm fs ps ua = ua\<lparr>target_analyzer := Some (load_analyzer pm fs ps)\<rparr>"

text \<open>\<^verbatim>\<open>self.modules[name]\<close> for a name that is a key.\<close>

definition module_at :: "(string \<times> OdooModule) list \<Rightarrow> string \<Rightarrow> OdooModule" where
  "module_at ms n = (case map_of ms n of Some m \<Rightarrow> m | None \<Rightarrow> OdooModule_init n [])"

text \<open>
  \<^verbatim>\<open>compare_versions\<close>: a \<^verbatim>\<open>ValueError\<close> unless both analyzers are loaded (an
  analyzer object is always true in Python, so the test fails exactly for \<^verbatim>\<open>None\<close>).
\<close>

definition compare_versions :: "UpgradeAnalyzer \<Rightarrow> error + VersionDiff" where
  "compare_versions ua =
     (case (source_analyzer ua, target_analyzer ua) of
        (Some sa, Some ta) \<Rightarrow>
          (let source_modules = fst ` set (modules sa);
               target_modules = fst ` set (modules ta);
               common = sorted_list_of_set (source_modules \<inter> target_modules)
           in Inr \<lparr>added_modules = sorted_list_of_set (target_modules - source_modules),
                   removed_modules = sorted_list_of_set (source_modules - target_modules),
                   modified_modules =
                     concat (map (\<lambda>n. let changes = compare_module (module_at (modules sa) n)
                                                                     (module_at (modules ta) n)
                                        in if changes \<noteq> [] then [(n, changes)] else [])
                                 common),
                   dependency_changes =
                     concat (map (\<lambda>n. let source_deps = set (depends (module_at (modules sa) n));
                                            target_deps = set (depends (module_at (modules ta) n));
                                            added_deps = target_deps - source_deps;
                                            removed_deps = source_deps - target_deps
                                        in if added_deps \<noteq> {} \<or> removed_deps \<noteq> {}
                                           then [\<lparr>dc_module = n,
                                                  added_dependencies = sorted_list_of_set added_deps,
                                                  removed_dependencies =
                                                    sorted_list_of_set removed_deps\<rparr>]
                                           else [])
                                 common)\<rparr>)
      | _ \<Rightarrow> Inl ValueError)"

section \<open>Notions used in the statements\<close>

text \<open>
  A well-formed graph: the node and edge dictionaries have no duplicate keys and every
  edge joins two nodes.
\<close>

definition wf_graph :: "DiGraph \<Rightarrow> bool" where
  "wf_graph G = (distinct (nodes G) \<and> distinct (adj G) \<and>
     (\<forall>(u, v) \<in> set (adj G). u \<in> set (nodes G) \<and> v \<in> set (nodes G)))"

text \<open>Every node outside \<open>S\<close> carries \<^verbatim>\<open>is_external=True\<close>.\<close>

definition ext_inv :: "string set \<Rightarrow> DiGraph \<Rightarrow> bool" where
  "ext_inv S G = (\<forall>n \<in> set (nodes G). n \<in> S \<or> node_attr G n ''is_external'' = Some (ABool True))"

text \<open>The dependency relation that a module dictionary declares.\<close>

definition dep_rel :: "(string \<times> OdooModule) list \<Rightarrow> (string \<times> string) set" where
  "dep_rel ms = {(n, d). \<exists>m. (n, m) \<in> set ms \<and> d \<in> set (depends m)}"

text \<open>Example inputs: a module with a given dependency list, and analyzers before a build.\<close>

definition module_with :: "string \<Rightarrow> string list \<Rightarrow> string \<times> OdooModule" where
  "module_with n ds = (n, (OdooModule_init n (''/addons/'' @ n))\<lparr>depends := ds\<rparr>)"

definition analyzer_of :: "(string \<times> OdooModule) list \<Rightarrow> OdooModuleAnalyzer" where
  "analyzer_of ms = \<lparr>paths = [], modules = ms, graph = None\<rparr>"

text \<open>
  The relation along which a search moves: the edges, or their converse when it follows
  the predecessors.
\<close>

definition nrel :: "bool \<Rightarrow> DiGraph \<Rightarrow> (string \<times> string) set" where
  "nrel bw G = (if bw then (edge_rel G)\<inverse> else edge_rel G)"

text \<open>
  The graph of an analyzer is current when it has not been built yet or is the graph of
  the module dictionary.
\<close>

definition graph_current :: "OdooModuleAnalyzer \<Rightarrow> bool" where
  "graph_current a = (graph a = None \<or> graph a = Some (build_graph (modules a)))"

text \<open>
  The position of the first occurrence of an element of a list, and the statement that
  one element of a list comes before another.
\<close>

definition position :: "'a \<Rightarrow> 'a list \<Rightarrow> nat" where
  "position x xs = length (takeWhile (\<lambda>z. z \<noteq> x) xs)"

definition appears_before :: "'a \<Rightarrow> 'a \<Rightarrow> 'a list \<Rightarrow> bool" where
  "appears_before x y xs = (x \<in> set xs \<and> y \<in> set xs \<and> position x xs < position y xs)"

text \<open>
  The invariant of the search from \<open>s\<close>: the seen nodes contain \<open>s\<close> and the frontier, are
  reachable from \<open>s\<close>, and the neighbours of every seen node outside the frontier are seen.
\<close>

definition bfs_inv :: "bool \<Rightarrow> DiGraph \<Rightarrow> string \<Rightarrow> string list \<Rightarrow> string list \<Rightarrow> bool" where
  "bfs_inv bw G s frontier seen =
     (s \<in> set seen \<and> set frontier \<subseteq> set seen \<and> set seen \<subseteq> (nrel bw G)\<^sup>* `` {s} \<and>
      nrel bw G `` (set seen - set frontier) \<subseteq> set seen)"

text \<open>
  The reverse dependencies of a name in a graph: the nodes from which the name can be
  reached, the name itself left out; empty for a name that is not a node.
\<close>

definition reverse_deps :: "DiGraph \<Rightarrow> string \<Rightarrow> string set" where
  "reverse_deps G n = (if has_node G n then ((edge_rel G)\<inverse>)\<^sup>* `` {n} - {n} else {})"

text \<open>The dependents that \<^verbatim>\<open>assess_upgrade_impact\<close> collects from a graph.\<close>

definition collected :: "DiGraph \<Rightarrow> string \<Rightarrow> string set" where
  "collected G n = reverse_deps G n \<union> \<Union> (reverse_deps G ` reverse_deps G n)"

text \<open>
  A statement that assigns neither \<^verbatim>\<open>_name\<close> nor \<^verbatim>\<open>_inherit\<close>.
\<close>

fun plain_stmt :: "stmt \<Rightarrow> bool" where
  "plain_stmt (Assign ts v) = (Name ''_name'' \<notin> set ts \<and> Name ''_inherit'' \<notin> set ts)"
| "plain_stmt s = True"

text \<open>
  The predecessors of a node that are not yet among the processed nodes \<open>P\<close>, and the
  invariant of the sort: the dictionary holds exactly the nodes that are neither processed
  nor queued, each with the positive number of its open predecessors; processed and queued
  nodes have no open predecessor.
\<close>

definition open_preds :: "DiGraph \<Rightarrow> string set \<Rightarrow> string \<Rightarrow> string set" where
  "open_preds H P v = {u. (u, v) \<in> edge_rel H \<and> u \<notin> P}"

definition kahn_inv :: "DiGraph \<Rightarrow> string set \<Rightarrow> indegree_map \<Rightarrow> string list \<Rightarrow> bool" where
  "kahn_inv H P im Q =
     (wf_graph H \<and> distinct (map fst im) \<and> distinct Q \<and> P \<inter> set Q = {} \<and>
      P \<union> set Q \<subseteq> set (nodes H) \<and>
      fst ` set im = set (nodes H) - P - set Q \<and>
      (\<forall>v d. map_of im v = Some d \<longrightarrow> d = int (card (open_preds H P v)) \<and> 0 < d) \<and>
      (\<forall>v \<in> set Q \<union> P. open_preds H P v = {}))"

text \<open>
  What the loop of the sort returns from a state that satisfies the invariant: either
  generations whose concatenation lists the unprocessed nodes once, every node after its
  predecessors, or \<^verbatim>\<open>NetworkXUnfeasible\<close>, and then a non-empty set of nodes each of
  which has a predecessor in the set.
\<close>

definition ordered_from :: "DiGraph \<Rightarrow> string set \<Rightarrow> string list \<Rightarrow> bool" where
  "ordered_from H P L =
     (distinct L \<and> set L = set (nodes H) - P \<and>
      (\<forall>u v. (u, v) \<in> edge_rel H \<and> v \<in> set L \<longrightarrow> u \<in> P \<or> appears_before u v L))"

definition closed_set :: "DiGraph \<Rightarrow> string set \<Rightarrow> bool" where
  "closed_set H S = (S \<noteq> {} \<and> (\<forall>v \<in> S. \<exists>u \<in> S. (u, v) \<in> edge_rel H))"

definition loop_result :: "DiGraph \<Rightarrow> string set \<Rightarrow> error + string list list \<Rightarrow> bool" where
  "loop_result H P r =
     (case r of
        Inr gens \<Rightarrow> ordered_from H P (concat gens)
      | Inl e \<Rightarrow> e = NetworkXUnfeasible \<and> (\<exists>S. closed_set H S))"

text \<open>
  The transitive dependencies of a name in a graph: the nodes reachable from it, the name
  itself left out; empty for a name that is not a node.
\<close>

definition forward_deps :: "DiGraph \<Rightarrow> string \<Rightarrow> string set" where
  "forward_deps G n = (if has_node G n then (edge_rel G)\<^sup>* `` {n} - {n} else {})"

section \<open>Properties of the graph construction\<close>

lemma adj_add_node [simp]: "adj (add_node G n attr) = adj G"
  by (simp add: add_node_def split: option.splits)

lemma nodes_add_node:
  "nodes (add_node G n attr) = (if n \<in> set (nodes G) then nodes G else nodes G @ [n])"
proof (cases "map_of (node G) n")
  case None
  then have "n \<notin> set (nodes G)" by (simp add: nodes_def map_of_eq_None_iff)
  with None show ?thesis by (simp add: add_node_def nodes_def)
next
  case (Some d)
  then have "n \<in> set (nodes G)" by (force simp: nodes_def dest: map_of_SomeD)
  with Some show ?thesis by (simp add: add_node_def nodes_def update_keys)
qed

lemma map_of_node_add_node:
  "map_of (node (add_node G n attr)) x =
     (if x = n then Some (update_attrs (case map_of (node G) n of None \<Rightarrow> [] | Some d \<Rightarrow> d) attr)
      else map_of (node G) x)"
proof (cases "map_of (node G) n")
  case None
  then show ?thesis by (simp add: add_node_def map_add_def split: option.splits)
next
  case (Some d)
  then show ?thesis by (simp add: add_node_def update_conv')
qed

lemma nodes_add_edge:
  "nodes (add_edge G u v) =
     nodes G @ (if u \<in> set (nodes G) then [] else [u]) @
       (if v \<in> set (nodes G) \<or> v = u then [] else [v])"
  by (auto simp: add_edge_def Let_def has_node_def nodes_def)

lemma adj_add_edge:
  "adj (add_edge G u v) = (if (u, v) \<in> set (adj G) then adj G else adj G @ [(u, v)])"
  by (auto simp: add_edge_def Let_def has_edge_def)

lemma map_of_node_add_edge:
  "x \<in> set (nodes G) \<Longrightarrow> map_of (node (add_edge G u v)) x = map_of (node G) x"
proof -
  assume "x \<in> set (nodes G)"
  then obtain d where "map_of (node G) x = Some d"
    by (cases "map_of (node G) x") (auto simp: nodes_def map_of_eq_None_iff)
  then show ?thesis
    by (simp add: add_edge_def Let_def has_node_def nodes_def map_add_def)
qed

lemma wf_graph_add_node: "wf_graph G \<Longrightarrow> wf_graph (add_node G n attr)"
  by (auto simp: wf_graph_def nodes_add_node)

lemma wf_graph_add_edge: "wf_graph G \<Longrightarrow> wf_graph (add_edge G u v)"
  by (auto simp: wf_graph_def nodes_add_edge adj_add_edge)

lemma wf_graph_empty: "wf_graph empty_graph"
  by (simp add: wf_graph_def empty_graph_def nodes_def)

lemma set_nodes_add_dependency:
  "set (nodes (add_dependency n d G)) = insert n (insert d (set (nodes G)))"
  by (auto simp: add_dependency_def nodes_add_edge nodes_add_node has_node_def)

lemma set_adj_add_dependency:
  "set (adj (add_dependency n d G)) = insert (n, d) (set (adj G))"
  by (auto simp: add_dependency_def adj_add_edge)

lemma wf_graph_add_dependency: "wf_graph G \<Longrightarrow> wf_graph (add_dependency n d G)"
  by (simp add: add_dependency_def wf_graph_add_edge wf_graph_add_node)

lemma external_attrs_lookup:
  "map_of (update_attrs [] (external_attrs d)) ''is_external'' = Some (ABool True)"
  by (simp add: update_attrs_def external_attrs_def)

lemma node_attr_add_edge:
  "x \<in> set (nodes G) \<Longrightarrow> node_attr (add_edge G u v) x k = node_attr G x k"
  by (simp add: node_attr_def map_of_node_add_edge)

lemma ext_inv_add_dependency:
  assumes "ext_inv S G" and "n \<in> S"
  shows "ext_inv S (add_dependency n d G)"
  unfolding ext_inv_def
proof
  fix x
  assume x: "x \<in> set (nodes (add_dependency n d G))"
  let ?H = "if \<not> has_node G d then add_node G d (external_attrs d) else G"
  have H: "add_dependency n d G = add_edge ?H n d" by (simp add: add_dependency_def)
  have nodesH: "set (nodes ?H) = insert d (set (nodes G))"
    by (auto simp: nodes_add_node has_node_def)
  show "x \<in> S \<or> node_attr (add_dependency n d G) x ''is_external'' = Some (ABool True)"
  proof (cases "x = n")
    case True
    with assms show ?thesis by simp
  next
    case False
    with x have xH: "x \<in> set (nodes ?H)"
      by (auto simp: set_nodes_add_dependency nodesH)
    then have eq: "node_attr (add_dependency n d G) x ''is_external'' = node_attr ?H x ''is_external''"
      unfolding H by (rule node_attr_add_edge)
    show ?thesis
    proof (cases "x \<in> set (nodes G)")
      case True
      then have "node_attr ?H x ''is_external'' = node_attr G x ''is_external''"
        by (auto simp: node_attr_def map_of_node_add_node has_node_def)
      with assms(1) True eq show ?thesis by (auto simp: ext_inv_def)
    next
      case False
      with xH nodesH have xd: "x = d" by auto
      with False have "map_of (node G) d = None"
        by (simp add: nodes_def map_of_eq_None_iff)
      with xd False have "node_attr ?H x ''is_external'' = Some (ABool True)"
        by (simp add: node_attr_def map_of_node_add_node has_node_def external_attrs_lookup)
      with eq show ?thesis by simp
    qed
  qed
qed

lemma fold_add_dependency_adj:
  "set (adj (fold (add_dependency n) ds G)) = set (adj G) \<union> {n} \<times> set ds"
  by (induction ds arbitrary: G) (auto simp: set_adj_add_dependency)

lemma fold_add_dependency_nodes:
  "set (nodes (fold (add_dependency n) ds G)) =
     set (nodes G) \<union> (if ds = [] then {} else {n}) \<union> set ds"
proof (induction ds arbitrary: G)
  case Nil
  then show ?case by simp
next
  case (Cons d ds)
  show ?case
    by (cases "ds = []") (auto simp: Cons.IH set_nodes_add_dependency)
qed

lemma fold_add_dependency_wf:
  "wf_graph G \<Longrightarrow> wf_graph (fold (add_dependency n) ds G)"
  by (induction ds arbitrary: G) (simp_all add: wf_graph_add_dependency)

lemma fold_add_dependency_ext:
  "ext_inv S G \<Longrightarrow> n \<in> S \<Longrightarrow> ext_inv S (fold (add_dependency n) ds G)"
  by (induction ds arbitrary: G) (simp_all add: ext_inv_add_dependency)

lemma add_module_edges_Cons:
  "add_module_edges ((n, m) # ms) G = add_module_edges ms (fold (add_dependency n) (depends m) G)"
  by (simp add: add_module_edges_def)

lemma dep_rel_Cons: "dep_rel ((n, m) # ms) = {n} \<times> set (depends m) \<union> dep_rel ms"
  by (auto simp: dep_rel_def)

lemma add_module_edges_adj:
  "set (adj (add_module_edges ms G)) = set (adj G) \<union> dep_rel ms"
proof (induction ms arbitrary: G)
  case Nil
  then show ?case by (simp add: add_module_edges_def dep_rel_def)
next
  case (Cons p ms)
  obtain n m where p: "p = (n, m)" by (cases p)
  show ?case unfolding p add_module_edges_Cons dep_rel_Cons Cons.IH fold_add_dependency_adj
    by blast
qed

lemma add_module_edges_nodes:
  "set (nodes (add_module_edges ms G)) =
     set (nodes G) \<union> Domain (dep_rel ms) \<union> Range (dep_rel ms)"
proof (induction ms arbitrary: G)
  case Nil
  then show ?case by (simp add: add_module_edges_def dep_rel_def)
next
  case (Cons p ms)
  obtain n m where p: "p = (n, m)" by (cases p)
  have D: "Domain ({n} \<times> set (depends m)) = (if depends m = [] then {} else {n})"
    by (cases "depends m") auto
  have R: "Range ({n} \<times> set (depends m)) = set (depends m)"
    by auto
  show ?case
    unfolding p add_module_edges_Cons dep_rel_Cons Cons.IH fold_add_dependency_nodes
      Domain_Un_eq Range_Un_eq D R
    by blast
qed

lemma add_module_edges_wf: "wf_graph G \<Longrightarrow> wf_graph (add_module_edges ms G)"
proof (induction ms arbitrary: G)
  case Nil
  then show ?case by (simp add: add_module_edges_def)
next
  case (Cons p ms)
  obtain n m where p: "p = (n, m)" by (cases p)
  from Cons show ?case unfolding p add_module_edges_Cons
    by (simp add: fold_add_dependency_wf)
qed

lemma add_module_edges_ext:
  "ext_inv S G \<Longrightarrow> fst ` set ms \<subseteq> S \<Longrightarrow> ext_inv S (add_module_edges ms G)"
proof (induction ms arbitrary: G)
  case Nil
  then show ?case by (simp add: add_module_edges_def)
next
  case (Cons p ms)
  obtain n m where p: "p = (n, m)" by (cases p)
  from Cons.prems have "ext_inv S (fold (add_dependency n) (depends m) G)"
    by (simp add: fold_add_dependency_ext p)
  with Cons.prems show ?case unfolding p add_module_edges_Cons
    by (simp add: Cons.IH)
qed

lemma add_module_nodes_Cons:
  "add_module_nodes ((n, m) # ms) G = add_module_nodes ms (add_node G n (scanned_attrs n m))"
  by (simp add: add_module_nodes_def)

lemma add_module_nodes_adj: "adj (add_module_nodes ms G) = adj G"
proof (induction ms arbitrary: G)
  case Nil
  then show ?case by (simp add: add_module_nodes_def)
next
  case (Cons p ms)
  then show ?case by (cases p) (simp add: add_module_nodes_Cons)
qed

lemma add_module_nodes_nodes:
  "set (nodes (add_module_nodes ms G)) = set (nodes G) \<union> fst ` set ms"
proof (induction ms arbitrary: G)
  case Nil
  then show ?case by (simp add: add_module_nodes_def)
next
  case (Cons p ms)
  then show ?case by (cases p) (auto simp: add_module_nodes_Cons nodes_add_node)
qed

lemma add_module_nodes_wf: "wf_graph G \<Longrightarrow> wf_graph (add_module_nodes ms G)"
proof (induction ms arbitrary: G)
  case Nil
  then show ?case by (simp add: add_module_nodes_def)
next
  case (Cons p ms)
  then show ?case by (cases p) (simp add: add_module_nodes_Cons wf_graph_add_node)
qed

lemma nodes_empty_graph: "nodes empty_graph = []"
  by (simp add: nodes_def empty_graph_def)

lemma adj_empty_graph: "adj empty_graph = []"
  by (simp add: empty_graph_def)

lemma build_graph_edges: "edge_rel (build_graph ms) = dep_rel ms"
  by (simp add: build_graph_def edge_rel_def add_module_edges_adj add_module_nodes_adj
      adj_empty_graph)

lemma build_graph_nodes:
  "set (nodes (build_graph ms)) = scanned_names ms \<union> Range (dep_rel ms)"
proof -
  have "Domain (dep_rel ms) \<subseteq> fst ` set ms" by (force simp: dep_rel_def)
  then show ?thesis
    by (auto simp: build_graph_def scanned_names_def add_module_edges_nodes
        add_module_nodes_nodes nodes_empty_graph)
qed

lemma build_graph_wf: "wf_graph (build_graph ms)"
  by (simp add: build_graph_def add_module_edges_wf add_module_nodes_wf wf_graph_empty)

lemma build_graph_ext: "ext_inv (scanned_names ms) (build_graph ms)"
proof -
  have "ext_inv (scanned_names ms) (add_module_nodes ms empty_graph)"
    by (simp add: ext_inv_def scanned_names_def add_module_nodes_nodes nodes_empty_graph)
  then show ?thesis
    by (simp add: build_graph_def scanned_names_def add_module_edges_ext)
qed

lemma reachable_in_graph:
  assumes "wf_graph G" and "(u, x) \<in> (edge_rel G)\<^sup>*" and "u \<in> set (nodes G)"
  shows "x \<in> set (nodes G)"
  using assms(2,3,1)
  by (induction rule: rtrancl_induct) (auto simp: wf_graph_def edge_rel_def)

section \<open>Completeness of the dependency graph\<close>

text \<open>
  Claim C1. For every module \<open>M\<close> of the module dictionary and every name \<open>D\<close> in its
  dependency list, the graph that \<^verbatim>\<open>build_dependency_graph\<close> returns has the node
  \<open>D\<close>, which is a scanned module or carries \<^verbatim>\<open>is_external=True\<close>, and the edge from
  \<open>M\<close> to \<open>D\<close>; and every node reachable from \<open>M\<close> along edges is a node of the graph,
  again scanned or external.
\<close>

theorem graph_completeness:
  assumes "(M, m) \<in> set (modules a)" and "D \<in> set (depends m)"
  shows "has_node (fst (build_dependency_graph a)) D \<and>
         has_edge (fst (build_dependency_graph a)) M D \<and>
         (D \<in> scanned_names (modules a) \<or>
          node_attr (fst (build_dependency_graph a)) D ''is_external'' = Some (ABool True)) \<and>
         (\<forall>x. (M, x) \<in> (edge_rel (fst (build_dependency_graph a)))\<^sup>* \<longrightarrow>
              has_node (fst (build_dependency_graph a)) x \<and>
              (x \<in> scanned_names (modules a) \<or>
               node_attr (fst (build_dependency_graph a)) x ''is_external'' = Some (ABool True)))"
proof -
  let ?G = "build_graph (modules a)"
  have G: "fst (build_dependency_graph a) = ?G"
    by (simp add: build_dependency_graph_def Let_def)
  from assms have MD: "(M, D) \<in> dep_rel (modules a)" by (auto simp: dep_rel_def)
  then have e: "has_edge ?G M D"
    using build_graph_edges [of "modules a"] by (simp add: has_edge_def edge_rel_def)
  from MD have n: "has_node ?G D"
    by (auto simp: has_node_def build_graph_nodes)
  from assms(1) have M: "M \<in> set (nodes ?G)"
    by (force simp: build_graph_nodes scanned_names_def)
  have ext: "\<And>x. x \<in> set (nodes ?G) \<Longrightarrow> x \<in> scanned_names (modules a) \<or>
       node_attr ?G x ''is_external'' = Some (ABool True)"
    using build_graph_ext [of "modules a"] by (simp add: ext_inv_def)
  have reach: "\<And>x. (M, x) \<in> (edge_rel ?G)\<^sup>* \<Longrightarrow> x \<in> set (nodes ?G)"
    using reachable_in_graph [OF build_graph_wf _ M] by blast
  show ?thesis unfolding G
    using e n ext reach by (auto simp: has_node_def)
qed

theorem graph_completeness_witness:
  "has_node (fst (build_dependency_graph
       (analyzer_of [module_with ''sale_ext'' [''sale'', ''x_rules'']]))) ''x_rules'' \<and>
   has_edge (fst (build_dependency_graph
       (analyzer_of [module_with ''sale_ext'' [''sale'', ''x_rules'']]))) ''sale_ext'' ''x_rules'' \<and>
   node_attr (fst (build_dependency_graph
       (analyzer_of [module_with ''sale_ext'' [''sale'', ''x_rules'']])))
     ''x_rules'' ''is_external'' = Some (ABool True)"
  using graph_completeness [of "''sale_ext''"
      "snd (module_with ''sale_ext'' [''sale'', ''x_rules''])"
      "analyzer_of [module_with ''sale_ext'' [''sale'', ''x_rules'']]" "''x_rules''"]
  by (simp add: analyzer_of_def module_with_def scanned_names_def)

section \<open>Correctness of the breadth-first search\<close>

lemma set_neighbors: "set (neighbors bw G u) = nrel bw G `` {u}"
  by (auto simp: neighbors_def nrel_def predecessors_def successors_def edge_rel_def
      intro!: image_eqI)

lemma bfs_children_set:
  "bfs_children cs seen nxt = (seen1, nxt1) \<Longrightarrow>
   \<exists>new. seen1 = seen @ new \<and> nxt1 = nxt @ new \<and> set new = set cs - set seen"
proof (induction cs arbitrary: seen nxt)
  case Nil
  then show ?case by simp
next
  case (Cons c cs)
  show ?case
  proof (cases "c \<in> set seen")
    case True
    with Cons.prems have "bfs_children cs seen nxt = (seen1, nxt1)" by simp
    from Cons.IH [OF this] True show ?thesis by auto
  next
    case False
    with Cons.prems have "bfs_children cs (seen @ [c]) (nxt @ [c]) = (seen1, nxt1)" by simp
    from Cons.IH [OF this] obtain new where
      new: "seen1 = (seen @ [c]) @ new" "nxt1 = (nxt @ [c]) @ new"
      "set new = set cs - set (seen @ [c])" by blast
    from new(3) False have "set (c # new) = set (c # cs) - set seen" by auto
    with new(1,2) have "seen1 = seen @ (c # new) \<and> nxt1 = nxt @ (c # new) \<and>
      set (c # new) = set (c # cs) - set seen" by simp
    then show ?thesis by blast
  qed
qed

lemma bfs_level_set:
  "bfs_level bw G ps seen nxt = (seen1, nxt1) \<Longrightarrow>
   \<exists>new. seen1 = seen @ new \<and> nxt1 = nxt @ new \<and>
         set new = nrel bw G `` set ps - set seen"
proof (induction ps arbitrary: seen nxt)
  case Nil
  then show ?case by simp
next
  case (Cons p ps)
  from Cons.prems obtain seen2 nxt2 where
    s1: "bfs_children (neighbors bw G p) seen nxt = (seen2, nxt2)" and
    s2: "bfs_level bw G ps seen2 nxt2 = (seen1, nxt1)"
    by (auto split: prod.splits)
  from bfs_children_set [OF s1] obtain n1 where
    n1: "seen2 = seen @ n1" "nxt2 = nxt @ n1" "set n1 = nrel bw G `` {p} - set seen"
    by (auto simp: set_neighbors)
  from Cons.IH [OF s2] obtain n2 where
    n2: "seen1 = seen2 @ n2" "nxt1 = nxt2 @ n2" "set n2 = nrel bw G `` set ps - set seen2"
    by blast
  from n1(3) n2(3) n1(1)
  have "set (n1 @ n2) = nrel bw G `` set (p # ps) - set seen" by auto
  with n1 n2 have "seen1 = seen @ (n1 @ n2) \<and> nxt1 = nxt @ (n1 @ n2) \<and>
     set (n1 @ n2) = nrel bw G `` set (p # ps) - set seen" by simp
  then show ?case by blast
qed

lemma bfs_inv_step:
  assumes inv: "bfs_inv bw G s frontier seen"
    and lvl: "bfs_level bw G frontier seen [] = (seen1, nxt)"
  shows "bfs_inv bw G s nxt seen1"
proof -
  from bfs_level_set [OF lvl] have
    s1: "seen1 = seen @ nxt" and nx: "set nxt = nrel bw G `` set frontier - set seen"
    by auto
  from inv have a: "s \<in> set seen" and b: "set frontier \<subseteq> set seen"
    and c: "set seen \<subseteq> (nrel bw G)\<^sup>* `` {s}"
    and d: "nrel bw G `` (set seen - set frontier) \<subseteq> set seen"
    by (auto simp: bfs_inv_def)
  have 1: "s \<in> set seen1" using a s1 by simp
  have 2: "set nxt \<subseteq> set seen1" using s1 by simp
  have 3: "set seen1 \<subseteq> (nrel bw G)\<^sup>* `` {s}"
  proof
    fix x assume "x \<in> set seen1"
    then consider "x \<in> set seen" | "x \<in> set nxt" using s1 by auto
    then show "x \<in> (nrel bw G)\<^sup>* `` {s}"
    proof cases
      case 1
      with c show ?thesis by blast
    next
      case 2
      with nx obtain u where u: "u \<in> set frontier" "(u, x) \<in> nrel bw G" by auto
      with b c have "(s, u) \<in> (nrel bw G)\<^sup>*" by auto
      with u(2) show ?thesis by (auto intro: rtrancl_into_rtrancl)
    qed
  qed
  have 4: "nrel bw G `` (set seen1 - set nxt) \<subseteq> set seen1"
  proof
    fix x assume "x \<in> nrel bw G `` (set seen1 - set nxt)"
    then obtain u where u: "u \<in> set seen1" "u \<notin> set nxt" "(u, x) \<in> nrel bw G" by auto
    then have us: "u \<in> set seen" using s1 by auto
    show "x \<in> set seen1"
    proof (cases "u \<in> set frontier")
      case True
      with u(3) nx s1 show ?thesis by auto
    next
      case False
      with us u(3) d have "x \<in> set seen" by auto
      with s1 show ?thesis by simp
    qed
  qed
  from 1 2 3 4 show ?thesis by (simp add: bfs_inv_def)
qed

lemma closed_reach:
  assumes "s \<in> S" and "R `` S \<subseteq> S" and "(s, x) \<in> R\<^sup>*"
  shows "x \<in> S"
  using assms(3,1,2) by (induction rule: rtrancl_induct) auto

lemma bfs_loop_reach:
  "bfs_inv bw G s frontier seen \<Longrightarrow>
   set (bfs_loop bw G frontier seen) = (nrel bw G)\<^sup>* `` {s}"
proof (induction bw G frontier seen rule: bfs_loop.induct)
  case (1 bw G frontier seen)
  show ?case
  proof (cases "frontier = []")
    case True
    with "1.prems" have a: "s \<in> set seen" and c: "set seen \<subseteq> (nrel bw G)\<^sup>* `` {s}"
      and d: "nrel bw G `` set seen \<subseteq> set seen"
      by (auto simp: bfs_inv_def)
    have "(nrel bw G)\<^sup>* `` {s} \<subseteq> set seen"
      using closed_reach [OF a d] by auto
    with c True show ?thesis by (simp add: bfs_loop.simps [of bw G "[]"])
  next
    case False
    obtain seen1 nxt where lvl: "bfs_level bw G frontier seen [] = (seen1, nxt)"
      by (cases "bfs_level bw G frontier seen []")
    have inv: "bfs_inv bw G s nxt seen1"
      by (rule bfs_inv_step [OF "1.prems" lvl])
    have "set (bfs_loop bw G nxt seen1) = (nrel bw G)\<^sup>* `` {s}"
      using "1.IH" [OF False lvl [symmetric] inv] .
    moreover have "bfs_loop bw G frontier seen = bfs_loop bw G nxt seen1"
      using False lvl by (subst bfs_loop.simps) simp
    ultimately show ?thesis by simp
  qed
qed

lemma bfs_reached_eq:
  "bfs_reached bw G s =
     (if has_node G s then Inr ((nrel bw G)\<^sup>* `` {s} - {s}) else Inl NetworkXError)"
proof -
  have "bfs_inv bw G s [s] [s]" by (simp add: bfs_inv_def)
  from bfs_loop_reach [OF this] show ?thesis by (simp add: bfs_reached_def)
qed

lemma reach_minus_self: "R\<^sup>* `` {s} - {s} = R\<^sup>+ `` {s} - {s}"
  by (auto simp: rtrancl_eq_or_trancl)

section \<open>The queries on an analyzer, with the state made explicit\<close>

lemma ensure_graph_graph: "graph (snd (ensure_graph a)) = Some (fst (ensure_graph a))"
  by (cases "graph a") (simp_all add: ensure_graph_def build_dependency_graph_def Let_def)

lemma ensure_graph_modules: "modules (snd (ensure_graph a)) = modules a"
  by (cases "graph a") (simp_all add: ensure_graph_def build_dependency_graph_def Let_def)

lemma ensure_graph_Some: "graph a = Some G \<Longrightarrow> ensure_graph a = (G, a)"
  by (simp add: ensure_graph_def)

lemma ensure_graph_current:
  "graph_current a \<Longrightarrow> fst (ensure_graph a) = build_graph (modules a)"
  by (auto simp: graph_current_def ensure_graph_def build_dependency_graph_def Let_def)

lemma graph_current_ensure: "graph_current a \<Longrightarrow> graph_current (snd (ensure_graph a))"
  using ensure_graph_graph [of a] ensure_graph_current [of a] ensure_graph_modules [of a]
  by (simp add: graph_current_def)

lemma get_reverse_dependencies_eq:
  "get_reverse_dependencies a n =
     (Inr (reverse_deps (fst (ensure_graph a)) n), snd (ensure_graph a))"
  by (cases "ensure_graph a")
    (simp add: get_reverse_dependencies_def reverse_deps_def ancestors_def bfs_reached_eq
      nrel_def)

lemma collect_dependents_eq:
  "graph a = Some G \<Longrightarrow>
   collect_dependents a ds acc = (Inr (acc \<union> set ds \<union> \<Union> (reverse_deps G ` set ds)), a)"
proof (induction ds arbitrary: acc)
  case Nil
  then show ?case by simp
next
  case (Cons d ds)
  from Cons.prems have eg: "ensure_graph a = (G, a)" by (rule ensure_graph_Some)
  have "collect_dependents a (d # ds) acc =
      collect_dependents a ds (insert d acc \<union> reverse_deps G d)"
    by (simp add: get_reverse_dependencies_eq eg)
  also have "\<dots> = (Inr ((insert d acc \<union> reverse_deps G d) \<union> set ds \<union>
      \<Union> (reverse_deps G ` set ds)), a)"
    by (rule Cons.IH [OF Cons.prems])
  also have "(insert d acc \<union> reverse_deps G d) \<union> set ds \<union> \<Union> (reverse_deps G ` set ds) =
      acc \<union> set (d # ds) \<union> \<Union> (reverse_deps G ` set (d # ds))"
    by auto
  finally show ?case .
qed

lemma finite_reverse_deps: "finite (reverse_deps G n)"
proof -
  have "((edge_rel G)\<inverse>)\<^sup>* `` {n} \<subseteq> insert n (fst ` set (adj G))"
  proof
    fix x assume "x \<in> ((edge_rel G)\<inverse>)\<^sup>* `` {n}"
    then have "(n, x) \<in> ((edge_rel G)\<inverse>)\<^sup>*" by simp
    then show "x \<in> insert n (fst ` set (adj G))"
      by (induction rule: rtrancl_induct) (auto simp: edge_rel_def intro!: image_eqI)
  qed
  then have "finite (((edge_rel G)\<inverse>)\<^sup>* `` {n})"
    by (rule finite_subset) simp
  then show ?thesis by (simp add: reverse_deps_def)
qed

lemma finite_collected: "finite (collected G n)"
  by (simp add: collected_def finite_reverse_deps)

lemma assess_absent:
  "map_of (modules a) n = None \<Longrightarrow>
   assess_upgrade_impact am n a =
     (Inr \<lparr>impact_module_name = n, direct_dependents = [], all_dependents = [],
           affected_models = [], risk_level = ''critical'',
           risk_factors = [ModuleNotFound n], recommendations = []\<rparr>, a)"
  by (simp add: assess_upgrade_impact_def UpgradeImpact_init_def)

lemma assess_present:
  assumes "map_of (modules a) n = Some md"
  shows "\<exists>imp. assess_upgrade_impact am n a = (Inr imp, snd (ensure_graph a)) \<and>
     impact_module_name imp = n \<and>
     direct_dependents imp = sorted_list_of_set (reverse_deps (fst (ensure_graph a)) n) \<and>
     all_dependents imp = sorted_list_of_set (collected (fst (ensure_graph a)) n) \<and>
     affected_models imp = am (path md) \<and>
     risk_level imp =
       (if length (affected_models imp) > 10 \<and>
           fst (base_risk (length (all_dependents imp)) (n \<in> CORE_MODULES)) = ''low''
        then ''medium''
        else fst (base_risk (length (all_dependents imp)) (n \<in> CORE_MODULES))) \<and>
     recommendations imp = recommend (risk_level imp)"
proof -
  let ?G = "fst (ensure_graph a)" and ?a1 = "snd (ensure_graph a)"
  have g: "graph ?a1 = Some ?G" by (rule ensure_graph_graph)
  have fin: "finite (reverse_deps ?G n)" by (rule finite_reverse_deps)
  have c: "collect_dependents ?a1 (sorted_list_of_set (reverse_deps ?G n)) {} =
      (Inr (collected ?G n), ?a1)"
    using collect_dependents_eq [OF g, of "sorted_list_of_set (reverse_deps ?G n)" "{}"] fin
    by (simp add: collected_def)
  show ?thesis
    using assms
    by (simp add: assess_upgrade_impact_def get_reverse_dependencies_eq c Let_def)
qed

lemma base_risk_level:
  "fst (base_risk c core) =
     (if c > 50 \<or> core then ''critical'' else if c > 20 then ''high''
      else if c > 5 then ''medium'' else ''low'')"
  by (simp add: base_risk_def)

section \<open>Risk levels of the impact assessment\<close>

text \<open>
  Claim C5. For a name that is not a key of the module dictionary,
  \<^verbatim>\<open>assess_upgrade_impact\<close> returns at once the level \<open>critical\<close> with the one risk
  factor that the module was not found, and empty lists. For a module of the dictionary the
  level is \<open>critical\<close> when there are more than 50 dependents or the name is a core module,
  \<open>high\<close> above 20 dependents, \<open>medium\<close> above 5, and otherwise \<open>low\<close>, raised to
  \<open>medium\<close> when the module defines more than 10 models; the higher levels stay.
\<close>

theorem risk_tier_assignment:
  "(map_of (modules a) n = None \<longrightarrow>
      fst (assess_upgrade_impact am n a) =
        Inr \<lparr>impact_module_name = n, direct_dependents = [], all_dependents = [],
             affected_models = [], risk_level = ''critical'',
             risk_factors = [ModuleNotFound n], recommendations = []\<rparr>) \<and>
   (\<forall>md. map_of (modules a) n = Some md \<longrightarrow>
      (\<exists>imp. fst (assess_upgrade_impact am n a) = Inr imp \<and>
          affected_models imp = am (path md) \<and>
          risk_level imp =
            (if length (all_dependents imp) > 50 \<or> n \<in> CORE_MODULES then ''critical''
             else if length (all_dependents imp) > 20 then ''high''
             else if length (all_dependents imp) > 5 then ''medium''
             else if length (affected_models imp) > 10 then ''medium''
             else ''low'')))"
proof (intro conjI allI impI)
  assume "map_of (modules a) n = None"
  then show "fst (assess_upgrade_impact am n a) =
        Inr \<lparr>impact_module_name = n, direct_dependents = [], all_dependents = [],
             affected_models = [], risk_level = ''critical'',
             risk_factors = [ModuleNotFound n], recommendations = []\<rparr>"
    by (simp add: assess_absent)
next
  fix md assume "map_of (modules a) n = Some md"
  from assess_present [OF this, of am] obtain imp where
    imp: "assess_upgrade_impact am n a = (Inr imp, snd (ensure_graph a))"
      "affected_models imp = am (path md)"
      "risk_level imp =
       (if length (affected_models imp) > 10 \<and>
           fst (base_risk (length (all_dependents imp)) (n \<in> CORE_MODULES)) = ''low''
        then ''medium''
        else fst (base_risk (length (all_dependents imp)) (n \<in> CORE_MODULES)))"
    by blast
  have "risk_level imp =
            (if length (all_dependents imp) > 50 \<or> n \<in> CORE_MODULES then ''critical''
             else if length (all_dependents imp) > 20 then ''high''
             else if length (all_dependents imp) > 5 then ''medium''
             else if length (affected_models imp) > 10 then ''medium''
             else ''low'')"
    unfolding imp(3) base_risk_level by simp
  with imp(1,2) show "\<exists>imp. fst (assess_upgrade_impact am n a) = Inr imp \<and>
          affected_models imp = am (path md) \<and>
          risk_level imp =
            (if length (all_dependents imp) > 50 \<or> n \<in> CORE_MODULES then ''critical''
             else if length (all_dependents imp) > 20 then ''high''
             else if length (all_dependents imp) > 5 then ''medium''
             else if length (affected_models imp) > 10 then ''medium''
             else ''low'')"
    by auto
qed

theorem risk_tier_assignment_witness:
  "fst (assess_upgrade_impact (\<lambda>p. []) ''ghost''
          (analyzer_of [module_with ''x_base'' [], module_with ''x_sale'' [''x_base'']])) =
     Inr \<lparr>impact_module_name = ''ghost'', direct_dependents = [], all_dependents = [],
          affected_models = [], risk_level = ''critical'',
          risk_factors = [ModuleNotFound ''ghost''], recommendations = []\<rparr> \<and>
   fst (assess_upgrade_impact (\<lambda>p. []) ''x_base''
          (analyzer_of [module_with ''x_base'' [], module_with ''x_sale'' [''x_base'']])) =
     Inr \<lparr>impact_module_name = ''x_base'', direct_dependents = [''x_sale''],
          all_dependents = [''x_sale''], affected_models = [], risk_level = ''low'',
          risk_factors = [], recommendations = [SafeToUpgrade]\<rparr>"
proof -
  let ?a = "analyzer_of [module_with ''x_base'' [], module_with ''x_sale'' [''x_base'']]"
  let ?am = "\<lambda>p::string. [] :: string list"
  have absent: "map_of (modules ?a) ''ghost'' = None"
    by (simp add: analyzer_of_def module_with_def)
  have present: "map_of (modules ?a) ''x_base'' = Some (snd (module_with ''x_base'' []))"
    by (simp add: analyzer_of_def module_with_def)
  from risk_tier_assignment [of ?a "''ghost''" ?am] absent
  have 1: "fst (assess_upgrade_impact ?am ''ghost'' ?a) =
     Inr \<lparr>impact_module_name = ''ghost'', direct_dependents = [], all_dependents = [],
          affected_models = [], risk_level = ''critical'',
          risk_factors = [ModuleNotFound ''ghost''], recommendations = []\<rparr>"
    by blast
  from risk_tier_assignment [of ?a "''x_base''" ?am] present
  obtain imp where imp: "fst (assess_upgrade_impact ?am ''x_base'' ?a) = Inr imp"
    by blast
  have 2: "fst (assess_upgrade_impact ?am ''x_base'' ?a) =
     Inr \<lparr>impact_module_name = ''x_base'', direct_dependents = [''x_sale''],
          all_dependents = [''x_sale''], affected_models = [], risk_level = ''low'',
          risk_factors = [], recommendations = [SafeToUpgrade]\<rparr>"
    by code_simp
  from 1 2 show ?thesis by simp
qed

section \<open>Dependents in the impact assessment\<close>

lemma dep_rel_list:
  "dep_rel ms = set (concat (map (\<lambda>(n, m). map (Pair n) (depends m)) ms))"
  by (auto simp: dep_rel_def)

lemma reverse_deps_trancl:
  "has_node G n \<Longrightarrow> reverse_deps G n = {v. (v, n) \<in> (edge_rel G)\<^sup>+ \<and> v \<noteq> n}"
  by (auto simp: reverse_deps_def rtrancl_converse rtrancl_eq_or_trancl)

lemma reverse_deps_subset: "reverse_deps G d \<subseteq> {v. (v, d) \<in> (edge_rel G)\<^sup>+}"
  by (auto simp: reverse_deps_def rtrancl_converse rtrancl_eq_or_trancl)

lemma collected_no_cycle:
  assumes "has_node G n" and "(n, n) \<notin> (edge_rel G)\<^sup>+"
  shows "collected G n = reverse_deps G n"
    and "reverse_deps G n = {v. (v, n) \<in> (edge_rel G)\<^sup>+}"
proof -
  show rd: "reverse_deps G n = {v. (v, n) \<in> (edge_rel G)\<^sup>+}"
    using assms by (auto simp: reverse_deps_trancl)
  have "\<Union> (reverse_deps G ` reverse_deps G n) \<subseteq> reverse_deps G n"
  proof
    fix v assume "v \<in> \<Union> (reverse_deps G ` reverse_deps G n)"
    then obtain d where d: "d \<in> reverse_deps G n" and v: "v \<in> reverse_deps G d" by blast
    from d rd have "(d, n) \<in> (edge_rel G)\<^sup>+" by simp
    moreover from v reverse_deps_subset have "(v, d) \<in> (edge_rel G)\<^sup>+" by blast
    ultimately have "(v, n) \<in> (edge_rel G)\<^sup>+" by (rule trancl_trans [rotated])
    with rd show "v \<in> reverse_deps G n" by simp
  qed
  then show "collected G n = reverse_deps G n" by (auto simp: collected_def)
qed

lemma has_node_scanned:
  "map_of ms n = Some md \<Longrightarrow> has_node (build_graph ms) n"
  by (force simp: has_node_def build_graph_nodes scanned_names_def dest: map_of_SomeD)

text \<open>
  Claim C4, at the chain in which \<open>b\<close> depends on \<open>a\<close> and \<open>c\<close> on \<open>b\<close>: the only module
  with an edge to \<open>a\<close> is \<open>b\<close>, and \<^verbatim>\<open>assess_upgrade_impact\<close> lists both \<open>b\<close> and \<open>c\<close>
  as direct dependents of \<open>a\<close>.
\<close>

theorem direct_dependents_of_chain:
  "predecessors (build_graph [module_with ''a'' [], module_with ''b'' [''a''],
                              module_with ''c'' [''b'']]) ''a'' = [''b''] \<and>
   fst (assess_upgrade_impact (\<lambda>p. []) ''a''
          (analyzer_of [module_with ''a'' [], module_with ''b'' [''a''],
                        module_with ''c'' [''b'']])) =
     Inr \<lparr>impact_module_name = ''a'', direct_dependents = [''b'', ''c''],
          all_dependents = [''b'', ''c''], affected_models = [], risk_level = ''low'',
          risk_factors = [], recommendations = [SafeToUpgrade]\<rparr>"
  by code_simp

text \<open>
  Claim C10 as stated fails on a cycle: when \<open>a\<close> and \<open>b\<close> depend on each other, the
  dependents collected for \<open>a\<close> contain \<open>a\<close> itself, which is not among the direct ones.
\<close>

theorem all_dependents_on_cycle:
  "fst (assess_upgrade_impact (\<lambda>p. []) ''a''
          (analyzer_of [module_with ''a'' [''b''], module_with ''b'' [''a'']])) =
     Inr \<lparr>impact_module_name = ''a'', direct_dependents = [''b''],
          all_dependents = [''a'', ''b''], affected_models = [], risk_level = ''low'',
          risk_factors = [], recommendations = [SafeToUpgrade]\<rparr>"
  by code_simp

text \<open>
  Claim C10, amended. For a module of the dictionary that does not lie on a dependency
  cycle, the lists \<open>all_dependents\<close> and \<open>direct_dependents\<close> of
  \<^verbatim>\<open>assess_upgrade_impact\<close> have the same elements, namely all modules from which the
  module can be reached along dependency edges.
\<close>

theorem dependents_transitive:
  assumes "graph_current a" and "map_of (modules a) n = Some md"
    and "(n, n) \<notin> (dep_rel (modules a))\<^sup>+"
  shows "\<exists>imp. fst (assess_upgrade_impact am n a) = Inr imp \<and>
           set (all_dependents imp) = set (direct_dependents imp) \<and>
           set (direct_dependents imp) = {v. (v, n) \<in> (dep_rel (modules a))\<^sup>+}"
proof -
  let ?G = "build_graph (modules a)"
  have G: "fst (ensure_graph a) = ?G" by (rule ensure_graph_current [OF assms(1)])
  have hn: "has_node ?G n" by (rule has_node_scanned [OF assms(2)])
  have nc: "(n, n) \<notin> (edge_rel ?G)\<^sup>+" using assms(3) by (simp add: build_graph_edges)
  from assess_present [OF assms(2), of am] obtain imp where
    imp: "assess_upgrade_impact am n a = (Inr imp, snd (ensure_graph a))"
      "direct_dependents imp = sorted_list_of_set (reverse_deps ?G n)"
      "all_dependents imp = sorted_list_of_set (collected ?G n)"
    unfolding G by blast
  have "set (all_dependents imp) = collected ?G n"
    by (simp add: imp(3) finite_collected)
  moreover have "set (direct_dependents imp) = reverse_deps ?G n"
    by (simp add: imp(2) finite_reverse_deps)
  ultimately have "set (all_dependents imp) = set (direct_dependents imp) \<and>
      set (direct_dependents imp) = {v. (v, n) \<in> (dep_rel (modules a))\<^sup>+}"
    using collected_no_cycle [OF hn nc] by (simp add: build_graph_edges)
  with imp(1) show ?thesis by auto
qed

theorem dependents_transitive_witness:
  "graph_current (analyzer_of [module_with ''a'' [], module_with ''b'' [''a''],
                               module_with ''c'' [''b'']]) \<and>
   (''a'', ''a'') \<notin> (dep_rel [module_with ''a'' [], module_with ''b'' [''a''],
                               module_with ''c'' [''b'']])\<^sup>+ \<and>
   {v. (v, ''a'') \<in> (dep_rel [module_with ''a'' [], module_with ''b'' [''a''],
                               module_with ''c'' [''b'']])\<^sup>+} = {''b'', ''c''}"
proof -
  let ?ms = "[module_with ''a'' [], module_with ''b'' [''a''], module_with ''c'' [''b'']]"
  let ?a = "analyzer_of ?ms"
  let ?am = "\<lambda>p::string. [] :: string list"
  have cur: "graph_current ?a" by (simp add: graph_current_def analyzer_of_def)
  have ms: "modules ?a = ?ms" by (simp add: analyzer_of_def)
  have key: "map_of (modules ?a) ''a'' = Some (snd (module_with ''a'' []))"
    by (simp add: analyzer_of_def module_with_def)
  have "dep_rel ?ms = {(''b'', ''a''), (''c'', ''b'')}"
    by (simp add: dep_rel_list module_with_def OdooModule_init_def insert_commute)
  then have "''a'' \<notin> Domain (dep_rel ?ms)"
    by simp
  then have "''a'' \<notin> Domain ((dep_rel ?ms)\<^sup>+)"
    by (simp only: trancl_domain not_False_eq_True)
  then have nc': "(''a'', ''a'') \<notin> (dep_rel ?ms)\<^sup>+" by blast
  then have nc: "(''a'', ''a'') \<notin> (dep_rel (modules ?a))\<^sup>+" unfolding ms .
  from dependents_transitive [OF cur key nc, of ?am] obtain imp where
    imp: "fst (assess_upgrade_impact ?am ''a'' ?a) = Inr imp"
      "set (direct_dependents imp) = {v. (v, ''a'') \<in> (dep_rel ?ms)\<^sup>+}"
    unfolding ms by blast
  have "fst (assess_upgrade_impact ?am ''a'' ?a) =
     Inr \<lparr>impact_module_name = ''a'', direct_dependents = [''b'', ''c''],
          all_dependents = [''b'', ''c''], affected_models = [], risk_level = ''low'',
          risk_factors = [], recommendations = [SafeToUpgrade]\<rparr>"
    by code_simp
  with imp(1) have "imp = \<lparr>impact_module_name = ''a'', direct_dependents = [''b'', ''c''],
          all_dependents = [''b'', ''c''], affected_models = [], risk_level = ''low'',
          risk_factors = [], recommendations = [SafeToUpgrade]\<rparr>"
    by (simp only: sum.inject)
  then have "direct_dependents imp = [''b'', ''c'']"
    by (simp only: UpgradeImpact.select_convs)
  then have "set (direct_dependents imp) = {''b'', ''c''}"
    by (simp only: list.set)
  with imp(2) have r: "{v. (v, ''a'') \<in> (dep_rel ?ms)\<^sup>+} = {''b'', ''c''}"
    by (simp only:)
  from cur nc' r show ?thesis by (intro conjI)
qed

section \<open>Recognition of models\<close>

lemma assign_attr_other:
  "attr \<noteq> ''_name'' \<Longrightarrow> attr \<noteq> ''_inherit'' \<Longrightarrow>
   snd (assign_attr attr v (model, flag)) = flag \<and>
   inherit (fst (assign_attr attr v (model, flag))) = inherit model \<and>
   model_name (fst (assign_attr attr v (model, flag))) = model_name model"
  by (simp add: assign_attr_def split: option.splits expr.splits)

lemma parse_targets_other:
  "Name ''_name'' \<notin> set ts \<Longrightarrow> Name ''_inherit'' \<notin> set ts \<Longrightarrow>
   snd (parse_targets ts v st) = snd st \<and>
   inherit (fst (parse_targets ts v st)) = inherit (fst st) \<and>
   model_name (fst (parse_targets ts v st)) = model_name (fst st)"
proof (induction ts arbitrary: st)
  case Nil
  then show ?case by simp
next
  case (Cons t ts)
  obtain model flag where st: "st = (model, flag)" by (cases st)
  from Cons.prems have rest: "Name ''_name'' \<notin> set ts" "Name ''_inherit'' \<notin> set ts"
    and t: "t \<noteq> Name ''_name''" "t \<noteq> Name ''_inherit''" by auto
  let ?st1 = "case t of Name attr_name \<Rightarrow> assign_attr attr_name v st | _ \<Rightarrow> st"
  have 1: "snd ?st1 = snd st \<and> inherit (fst ?st1) = inherit (fst st) \<and>
      model_name (fst ?st1) = model_name (fst st)"
  proof (cases t)
    case (Name attr)
    with t have "attr \<noteq> ''_name''" "attr \<noteq> ''_inherit''" by auto
    from assign_attr_other [OF this, of v model flag] Name st show ?thesis by simp
  qed simp_all
  from Cons.IH [OF rest, of ?st1] 1 show ?case by simp
qed

lemma parse_body_plain:
  "list_all plain_stmt ss \<Longrightarrow>
   snd (parse_body ss st) = snd st \<and>
   inherit (fst (parse_body ss st)) = inherit (fst st) \<and>
   model_name (fst (parse_body ss st)) = model_name (fst st)"
proof (induction ss arbitrary: st)
  case Nil
  then show ?case by simp
next
  case (Cons s ss)
  obtain model flag where st: "st = (model, flag)" by (cases st)
  from Cons.prems have rest: "list_all plain_stmt ss" and s: "plain_stmt s" by simp_all
  show ?case
  proof (cases s)
    case (Assign ts v)
    with s have "Name ''_name'' \<notin> set ts" "Name ''_inherit'' \<notin> set ts" by simp_all
    from parse_targets_other [OF this, of v st] Cons.IH [OF rest, of "parse_targets ts v st"]
    show ?thesis by (simp add: Assign)
  next
    case (FunctionDef f)
    from Cons.IH [OF rest, of "(model\<lparr>methods := methods model @ [f]\<rparr>, flag)"]
    show ?thesis by (simp add: FunctionDef st)
  next
    case OtherStmt
    from Cons.IH [OF rest, of st] show ?thesis by (simp add: OtherStmt)
  qed
qed

lemma parse_class_plain:
  "list_all plain_stmt (body cls) \<Longrightarrow> parse_class cls m f = None"
proof -
  assume a: "list_all plain_stmt (body cls)"
  let ?st0 = "(\<lparr>model_name = VStr [], inherit = [], inherits = [], model_description = [],
               model_fields = [], methods = [], model_module = m, file_path = f\<rparr>, False)"
  obtain model flag where r: "parse_body (body cls) ?st0 = (model, flag)"
    by (cases "parse_body (body cls) ?st0")
  from parse_body_plain [OF a, of ?st0] r have "flag = False" "inherit model = []"
    by simp_all
  with r show ?thesis by (simp add: parse_class_def)
qed

text \<open>
  Claim C7, at a class whose body is the one field assignment
  \<^verbatim>\<open>nickname = fields.Char()\<close>: the assignment is a field definition with a name that is
  not reserved, \<^verbatim>\<open>_parse_field\<close> accepts it, and \<^verbatim>\<open>_parse_class\<close> returns
  \<^verbatim>\<open>None\<close>. With \<^verbatim>\<open>_inherit\<close> before it, the same assignment is recorded as a field.
\<close>

theorem field_only_class_not_recognized:
  "is_field_definition (Call (Attribute (Name ''fields'') ''Char'') [] []) \<and>
   parse_field ''nickname'' (Call (Attribute (Name ''fields'') ''Char'') [] []) =
     Some \<lparr>field_name = ''nickname'', field_type = ''Char'', comodel_name = CNone,
           related = None, compute = None, store = True, required = False,
           readonly = False, label = []\<rparr> \<and>
   parse_class \<lparr>class_name = ''Partner'',
                body = [Assign [Name ''nickname'']
                          (Call (Attribute (Name ''fields'') ''Char'') [] [])]\<rparr>
     ''custom_base'' ''partner.py'' = None \<and>
   map_option (\<lambda>model. map fst (model_fields model))
     (parse_class \<lparr>class_name = ''Partner'',
                   body = [Assign [Name ''_inherit''] (Constant (CStr ''res.partner'')),
                           Assign [Name ''nickname'']
                             (Call (Attribute (Name ''fields'') ''Char'') [] [])]\<rparr>
        ''custom_base'' ''partner.py'') = Some [''nickname'']"
  by code_simp

section \<open>Directories whose name begins with a dot\<close>

text \<open>
  Claim C9, at a root \<open>/srv\<close> that holds the module directory \<open>.git\<close> and the plain
  directory \<open>vendor\<close>, which holds the module directory \<open>.cache\<close>: the scan passes over
  \<open>.git\<close> and stores \<open>.cache\<close> as a module.
\<close>

theorem dot_directory_scanned_at_second_level:
  "map fst (fst (scan_modules (\<lambda>txt. Some empty_manifest)
      (Dir True
        [(''srv'',
          Dir True
            [(''.git'',
              Dir True [(''__init__.py'', File []), (''__manifest__.py'', File ''{}'')]),
             (''vendor'',
              Dir True
                [(''.cache'',
                  Dir True [(''__init__.py'', File []),
                            (''__manifest__.py'', File ''{}'')])])])])
      (new_analyzer [[''srv'']]))) = [''.cache'']"
  by code_simp

section \<open>Misuse by the caller\<close>

text \<open>
  Claim C8 as stated fails for the queries: on an analyzer that has scanned nothing,
  \<^verbatim>\<open>get_all_dependencies\<close> returns the empty set.
\<close>

theorem query_before_scan_is_empty:
  "fst (get_all_dependencies (new_analyzer []) ''sale'' True) = Inr {}"
  by code_simp

lemma build_graph_Nil: "build_graph [] = empty_graph"
  by (simp add: build_graph_def add_module_edges_def add_module_nodes_def)

text \<open>
  Claim C8, amended. \<^verbatim>\<open>compare_versions\<close> raises \<^verbatim>\<open>ValueError\<close> exactly when the
  source or the target side has not been loaded. A query for transitive dependencies on
  an analyzer that has not scanned builds the graph of the empty module dictionary and
  returns the empty set.
\<close>

theorem caller_misuse:
  "(compare_versions ua = Inl ValueError) =
     (source_analyzer ua = None \<or> target_analyzer ua = None) \<and>
   fst (get_all_dependencies (new_analyzer ps) n include_core) = Inr {}"
proof
  show "(compare_versions ua = Inl ValueError) =
     (source_analyzer ua = None \<or> target_analyzer ua = None)"
    by (cases "source_analyzer ua"; cases "target_analyzer ua")
      (simp_all add: compare_versions_def Let_def)
  show "fst (get_all_dependencies (new_analyzer ps) n include_core) = Inr {}"
    by (simp add: get_all_dependencies_def ensure_graph_def build_dependency_graph_def
        new_analyzer_def build_graph_Nil has_node_def nodes_def empty_graph_def Let_def)
qed

theorem caller_misuse_witness:
  "compare_versions (UpgradeAnalyzer_init\<lparr>source_analyzer := Some (new_analyzer [])\<rparr>) =
     Inl ValueError \<and>
   fst (get_all_dependencies (new_analyzer [[''srv'']]) ''sale'' False) = Inr {}"
  using caller_misuse [of "UpgradeAnalyzer_init\<lparr>source_analyzer := Some (new_analyzer [])\<rparr>"
      "[[''srv'']]" "''sale''" False]
  by (simp add: UpgradeAnalyzer_init_def)

section \<open>Correctness of the topological sort\<close>

lemma visit_children_spec:
  assumes "distinct (map fst im)" and "distinct cs" and "set cs \<subseteq> fst ` set im"
  shows "\<exists>im1. visit_children cs im zero =
             Inr (im1, zero @ filter (\<lambda>c. map_of im c = Some 1) cs) \<and>
           distinct (map fst im1) \<and>
           (\<forall>v. map_of im1 v =
                 (if v \<in> set cs
                  then (case map_of im v of None \<Rightarrow> None
                        | Some d \<Rightarrow> if d = 1 then None else Some (d - 1))
                  else map_of im v))"
  using assms
proof (induction cs arbitrary: im zero)
  case Nil
  then show ?case by simp
next
  case (Cons c cs)
  from Cons.prems(3) have "c \<in> fst ` set im" by simp
  then obtain d where d: "map_of im c = Some d"
    by (cases "map_of im c") (auto simp: map_of_eq_None_iff)
  from Cons.prems(2) have cn: "c \<notin> set cs" and dcs: "distinct cs" by simp_all
  show ?case
  proof (cases "d = 1")
    case True
    let ?im2 = "AList.delete c im"
    have m2: "map_of ?im2 = (map_of im)(c := None)" by (rule delete_conv')
    have d2: "distinct (map fst ?im2)" using Cons.prems(1) by (rule distinct_delete)
    have k2: "set cs \<subseteq> fst ` set ?im2"
    proof
      fix x assume x: "x \<in> set cs"
      with cn have "x \<noteq> c" by auto
      moreover from x Cons.prems(3) have "x \<in> set (map fst im)" by auto
      ultimately have "x \<in> set (map fst ?im2)" by (simp add: delete_keys)
      then show "x \<in> fst ` set ?im2" by simp
    qed
    from Cons.IH [OF d2 dcs k2, of "zero @ [c]"] obtain im1 where
      r: "visit_children cs ?im2 (zero @ [c]) =
            Inr (im1, (zero @ [c]) @ filter (\<lambda>x. map_of ?im2 x = Some 1) cs)"
      and d1: "distinct (map fst im1)"
      and m1: "\<And>v. map_of im1 v =
                 (if v \<in> set cs
                  then (case map_of ?im2 v of None \<Rightarrow> None
                        | Some d \<Rightarrow> if d = 1 then None else Some (d - 1))
                  else map_of ?im2 v)"
      by blast
    have f: "filter (\<lambda>x. map_of ?im2 x = Some 1) cs = filter (\<lambda>x. map_of im x = Some 1) cs"
      using cn by (intro filter_cong) (auto simp: m2)
    have run: "visit_children (c # cs) im zero =
        Inr (im1, zero @ filter (\<lambda>x. map_of im x = Some 1) (c # cs))"
      using d True r f by simp
    have "\<And>v. map_of im1 v =
                 (if v \<in> set (c # cs)
                  then (case map_of im v of None \<Rightarrow> None
                        | Some d \<Rightarrow> if d = 1 then None else Some (d - 1))
                  else map_of im v)"
      using cn d True by (simp add: m1 m2)
    with run d1 show ?thesis by blast
  next
    case False
    let ?im2 = "AList.update c (d - 1) im"
    have m2: "map_of ?im2 = (map_of im)(c \<mapsto> d - 1)" by (rule update_conv')
    have d2: "distinct (map fst ?im2)" using Cons.prems(1) by (rule distinct_update)
    have k2: "set cs \<subseteq> fst ` set ?im2"
      using Cons.prems(3) by (auto simp: dom_update)
    from Cons.IH [OF d2 dcs k2, of zero] obtain im1 where
      r: "visit_children cs ?im2 zero =
            Inr (im1, zero @ filter (\<lambda>x. map_of ?im2 x = Some 1) cs)"
      and d1: "distinct (map fst im1)"
      and m1: "\<And>v. map_of im1 v =
                 (if v \<in> set cs
                  then (case map_of ?im2 v of None \<Rightarrow> None
                        | Some d \<Rightarrow> if d = 1 then None else Some (d - 1))
                  else map_of ?im2 v)"
      by blast
    have f: "filter (\<lambda>x. map_of ?im2 x = Some 1) cs = filter (\<lambda>x. map_of im x = Some 1) cs"
      using cn by (intro filter_cong) (auto simp: m2)
    have run: "visit_children (c # cs) im zero =
        Inr (im1, zero @ filter (\<lambda>x. map_of im x = Some 1) (c # cs))"
      using d False r f by simp
    have "\<And>v. map_of im1 v =
                 (if v \<in> set (c # cs)
                  then (case map_of im v of None \<Rightarrow> None
                        | Some d \<Rightarrow> if d = 1 then None else Some (d - 1))
                  else map_of im v)"
      using cn d False by (simp add: m1 m2)
    with run d1 show ?thesis by blast
  qed
qed

lemma finite_open_preds: "finite (open_preds H P v)"
proof -
  have "open_preds H P v \<subseteq> fst ` set (adj H)"
    by (auto simp: open_preds_def edge_rel_def intro!: image_eqI)
  then show ?thesis by (rule finite_subset) simp
qed

lemma set_successors: "set (successors H n) = edge_rel H `` {n}"
  by (auto simp: successors_def edge_rel_def intro!: image_eqI)

lemma set_predecessors: "set (predecessors H v) = (edge_rel H)\<inverse> `` {v}"
  by (auto simp: predecessors_def edge_rel_def intro!: image_eqI)

lemma distinct_successors: "distinct (adj H) \<Longrightarrow> distinct (successors H n)"
  by (auto simp: successors_def distinct_map inj_on_def prod_eq_iff)

lemma length_predecessors:
  "distinct (adj H) \<Longrightarrow> length (predecessors H v) = card ((edge_rel H)\<inverse> `` {v})"
proof -
  assume "distinct (adj H)"
  then have "distinct (predecessors H v)"
    by (auto simp: predecessors_def distinct_map inj_on_def prod_eq_iff)
  then have "length (predecessors H v) = card (set (predecessors H v))"
    by (simp add: distinct_card)
  then show ?thesis by (simp add: set_predecessors)
qed

lemma kahn_invD:
  assumes "kahn_inv H P im Q"
  shows "wf_graph H" and "distinct (map fst im)" and "distinct Q" and "P \<inter> set Q = {}"
    and "P \<union> set Q \<subseteq> set (nodes H)"
    and "fst ` set im = set (nodes H) - P - set Q"
    and "\<And>v d. map_of im v = Some d \<Longrightarrow> d = int (card (open_preds H P v)) \<and> 0 < d"
    and "\<And>v. v \<in> set Q \<union> P \<Longrightarrow> open_preds H P v = {}"
proof -
  from assms show "wf_graph H" by (simp add: kahn_inv_def)
  from assms show "distinct (map fst im)" by (simp add: kahn_inv_def)
  from assms show "distinct Q" by (simp add: kahn_inv_def)
  from assms show "P \<inter> set Q = {}" by (simp add: kahn_inv_def)
  from assms show "P \<union> set Q \<subseteq> set (nodes H)" by (simp add: kahn_inv_def)
  from assms show "fst ` set im = set (nodes H) - P - set Q" by (simp add: kahn_inv_def)
  from assms have a: "\<forall>v d. map_of im v = Some d \<longrightarrow>
      d = int (card (open_preds H P v)) \<and> 0 < d"
    unfolding kahn_inv_def by (elim conjE)
  show "\<And>v d. map_of im v = Some d \<Longrightarrow> d = int (card (open_preds H P v)) \<and> 0 < d"
    using a by blast
  from assms have b: "\<forall>v \<in> set Q \<union> P. open_preds H P v = {}"
    unfolding kahn_inv_def by (elim conjE)
  show "\<And>v. v \<in> set Q \<union> P \<Longrightarrow> open_preds H P v = {}"
    using b by blast
qed

lemma kahn_invI:
  assumes "wf_graph H" and "distinct (map fst im)" and "distinct Q" and "P \<inter> set Q = {}"
    and "P \<union> set Q \<subseteq> set (nodes H)"
    and "fst ` set im = set (nodes H) - P - set Q"
    and "\<And>v d. map_of im v = Some d \<Longrightarrow> d = int (card (open_preds H P v)) \<and> 0 < d"
    and "\<And>v. v \<in> set Q \<union> P \<Longrightarrow> open_preds H P v = {}"
  shows "kahn_inv H P im Q"
  unfolding kahn_inv_def
proof (intro conjI)
  show "\<forall>v d. map_of im v = Some d \<longrightarrow> d = int (card (open_preds H P v)) \<and> 0 < d"
    using assms(7) by blast
  show "\<forall>v \<in> set Q \<union> P. open_preds H P v = {}"
    using assms(8) by blast
qed (rule assms)+

lemma open_preds_insert: "open_preds H (insert n P) v = open_preds H P v - {n}"
  by (auto simp: open_preds_def)

lemma keys_dom: "fst ` set (al :: indegree_map) = dom (map_of al)"
  by (simp add: dom_map_of_conv_image_fst)

lemma kahn_successors:
  assumes inv: "kahn_inv H P im (n # Q)"
  shows "distinct (successors H n)"
    and "\<And>c. c \<in> set (successors H n) \<Longrightarrow> n \<in> open_preds H P c"
    and "\<And>c. c \<in> set (successors H n) \<Longrightarrow> c \<noteq> n \<and> c \<notin> set Q \<and> c \<notin> P"
    and "set (successors H n) \<subseteq> set (nodes H)"
    and "set (successors H n) \<subseteq> fst ` set im"
proof -
  note d = kahn_invD [OF inv]
  from d(4) have nP: "n \<notin> P" by simp
  show "distinct (successors H n)"
    using d(1) by (simp add: wf_graph_def distinct_successors)
  show op: "\<And>c. c \<in> set (successors H n) \<Longrightarrow> n \<in> open_preds H P c"
    using nP by (simp add: set_successors open_preds_def)
  show out: "\<And>c. c \<in> set (successors H n) \<Longrightarrow> c \<noteq> n \<and> c \<notin> set Q \<and> c \<notin> P"
  proof -
    fix c assume c: "c \<in> set (successors H n)"
    have "c \<notin> set (n # Q) \<union> P"
    proof
      assume "c \<in> set (n # Q) \<union> P"
      from d(8) [OF this] op [OF c] show False by simp
    qed
    then show "c \<noteq> n \<and> c \<notin> set Q \<and> c \<notin> P" by simp
  qed
  show nodes: "set (successors H n) \<subseteq> set (nodes H)"
  proof
    fix c assume "c \<in> set (successors H n)"
    then have "(n, c) \<in> set (adj H)" by (simp add: set_successors edge_rel_def)
    with d(1) show "c \<in> set (nodes H)" unfolding wf_graph_def by blast
  qed
  show "set (successors H n) \<subseteq> fst ` set im"
  proof
    fix c assume c: "c \<in> set (successors H n)"
    with nodes have "c \<in> set (nodes H)" by blast
    with out [OF c] show "c \<in> fst ` set im" unfolding d(6) by simp
  qed
qed

lemma kahn_step_keys:
  assumes inv: "kahn_inv H P im (n # Q)"
    and m1: "\<And>v. map_of im1 v =
                 (if v \<in> set (successors H n)
                  then (case map_of im v of None \<Rightarrow> None
                        | Some d \<Rightarrow> if d = 1 then None else Some (d - 1))
                  else map_of im v)"
  shows "fst ` set im1 =
     set (nodes H) - insert n P -
       set (Q @ filter (\<lambda>c. map_of im c = Some 1) (successors H n))"
proof -
  let ?cs = "successors H n"
  let ?new = "filter (\<lambda>c. map_of im c = Some 1) ?cs"
  note d = kahn_invD [OF inv]
  note s = kahn_successors [OF inv]
  have dom1: "dom (map_of im1) = dom (map_of im) - set ?new"
  proof (rule set_eqI)
    fix v
    show "v \<in> dom (map_of im1) \<longleftrightarrow> v \<in> dom (map_of im) - set ?new"
    proof (cases "v \<in> set ?cs")
      case True
      with s(5) have "v \<in> dom (map_of im)" unfolding keys_dom by blast
      then obtain d0 where d0: "map_of im v = Some d0" by blast
      with True show ?thesis by (simp add: m1 domIff)
    next
      case False
      then show ?thesis by (simp add: m1 domIff)
    qed
  qed
  have "fst ` set im1 = fst ` set im - set ?new"
    unfolding keys_dom by (rule dom1)
  also have "\<dots> = set (nodes H) - P - set (n # Q) - set ?new"
    unfolding d(6) ..
  also have "\<dots> = set (nodes H) - insert n P - set (Q @ ?new)"
    by auto
  finally show ?thesis .
qed

lemma kahn_step_counts:
  assumes inv: "kahn_inv H P im (n # Q)"
    and m1: "\<And>v. map_of im1 v =
                 (if v \<in> set (successors H n)
                  then (case map_of im v of None \<Rightarrow> None
                        | Some d \<Rightarrow> if d = 1 then None else Some (d - 1))
                  else map_of im v)"
    and vd: "map_of im1 v = Some d"
  shows "d = int (card (open_preds H (insert n P) v)) \<and> 0 < d"
proof (cases "v \<in> set (successors H n)")
  case True
  note dd = kahn_invD [OF inv]
  note s = kahn_successors [OF inv]
  from True s(5) have "v \<in> dom (map_of im)" unfolding keys_dom by blast
  then obtain d0 where d0: "map_of im v = Some d0" by blast
  from vd True d0 have ne: "d0 \<noteq> 1" and eq: "d = d0 - 1"
    by (simp_all add: m1 split: if_splits)
  from dd(7) [OF d0] have c0: "d0 = int (card (open_preds H P v))" and pos: "0 < d0"
    by simp_all
  have "card (open_preds H P v - {n}) = card (open_preds H P v) - 1"
    using s(2) [OF True] by (simp add: finite_open_preds)
  moreover from pos c0 have "0 < card (open_preds H P v)" by simp
  ultimately have "int (card (open_preds H P v - {n})) = d0 - 1"
    using c0 by simp
  with eq ne pos show ?thesis unfolding open_preds_insert by simp
next
  case False
  note dd = kahn_invD [OF inv]
  from vd False have d0: "map_of im v = Some d" by (simp add: m1)
  from False have "n \<notin> open_preds H P v"
    by (simp add: set_successors open_preds_def)
  then have "open_preds H P v - {n} = open_preds H P v" by simp
  with dd(7) [OF d0] show ?thesis unfolding open_preds_insert by simp
qed

lemma kahn_step_closed:
  assumes inv: "kahn_inv H P im (n # Q)"
    and v: "v \<in> set (Q @ filter (\<lambda>c. map_of im c = Some 1) (successors H n)) \<union> insert n P"
  shows "open_preds H (insert n P) v = {}"
proof (cases "v \<in> set (filter (\<lambda>c. map_of im c = Some 1) (successors H n))")
  case True
  note dd = kahn_invD [OF inv]
  note s = kahn_successors [OF inv]
  from True have vc: "v \<in> set (successors H n)" and one: "map_of im v = Some 1" by simp_all
  from dd(7) [OF one] have "card (open_preds H P v) = 1" by simp
  then obtain x where x: "open_preds H P v = {x}" by (auto simp: card_1_singleton_iff)
  with s(2) [OF vc] have "open_preds H P v = {n}" by simp
  then show ?thesis unfolding open_preds_insert by simp
next
  case False
  note dd = kahn_invD [OF inv]
  from False v have "v \<in> set (n # Q) \<union> P" by auto
  from dd(8) [OF this] show ?thesis unfolding open_preds_insert by simp
qed

lemma kahn_step:
  assumes inv: "kahn_inv H P im (n # Q)"
  shows "\<exists>im1 new. visit_children (successors H n) im zero = Inr (im1, zero @ new) \<and>
           kahn_inv H (insert n P) im1 (Q @ new)"
proof -
  let ?cs = "successors H n"
  let ?new = "filter (\<lambda>c. map_of im c = Some 1) ?cs"
  note d = kahn_invD [OF inv]
  note s = kahn_successors [OF inv]
  from visit_children_spec [OF d(2) s(1) s(5), of zero] obtain im1 where
    run: "visit_children ?cs im zero = Inr (im1, zero @ ?new)"
    and d1: "distinct (map fst im1)"
    and m1: "\<And>v. map_of im1 v =
                 (if v \<in> set ?cs
                  then (case map_of im v of None \<Rightarrow> None
                        | Some d \<Rightarrow> if d = 1 then None else Some (d - 1))
                  else map_of im v)"
    by blast
  from d(3) have nQ: "n \<notin> set Q" and dQ: "distinct Q" by simp_all
  from d(4) have nP: "n \<notin> P" and PQ: "P \<inter> set Q = {}" by simp_all
  have new_out: "\<And>c. c \<in> set ?new \<Longrightarrow> c \<noteq> n \<and> c \<notin> set Q \<and> c \<notin> P"
    using s(3) by simp
  have i3: "distinct (Q @ ?new)"
    using dQ s(1) new_out by (simp add: disjoint_iff) blast
  have i4: "insert n P \<inter> set (Q @ ?new) = {}"
    using nQ PQ new_out by (simp add: disjoint_iff) blast
  have i5: "insert n P \<union> set (Q @ ?new) \<subseteq> set (nodes H)"
    using d(5) s(4) by auto
  have "kahn_inv H (insert n P) im1 (Q @ ?new)"
  proof (rule kahn_invI)
    show "wf_graph H" by (rule d(1))
    show "distinct (map fst im1)" by (rule d1)
    show "distinct (Q @ ?new)" by (rule i3)
    show "insert n P \<inter> set (Q @ ?new) = {}" by (rule i4)
    show "insert n P \<union> set (Q @ ?new) \<subseteq> set (nodes H)" by (rule i5)
    show "fst ` set im1 = set (nodes H) - insert n P - set (Q @ ?new)"
      by (rule kahn_step_keys [OF inv m1])
    show "\<And>v d. map_of im1 v = Some d \<Longrightarrow>
        d = int (card (open_preds H (insert n P) v)) \<and> 0 < d"
      by (rule kahn_step_counts [OF inv m1])
    show "\<And>v. v \<in> set (Q @ ?new) \<union> insert n P \<Longrightarrow> open_preds H (insert n P) v = {}"
      by (rule kahn_step_closed [OF inv])
  qed
  with run show ?thesis by blast
qed

lemma kahn_generation:
  "kahn_inv H P im (ns @ zero) \<Longrightarrow>
   \<exists>im1 zero1. visit_generation H ns im zero = Inr (im1, zero1) \<and>
     kahn_inv H (P \<union> set ns) im1 zero1"
proof (induction ns arbitrary: P im zero)
  case Nil
  then show ?case by simp
next
  case (Cons n ns)
  from Cons.prems have inv: "kahn_inv H P im (n # (ns @ zero))" by simp
  from kahn_invD(5) [OF inv] have hn: "has_node H n" by (simp add: has_node_def)
  from kahn_step [OF inv, of zero] obtain im1 new where
    run: "visit_children (successors H n) im zero = Inr (im1, zero @ new)"
    and inv1: "kahn_inv H (insert n P) im1 ((ns @ zero) @ new)"
    by blast
  from inv1 have "kahn_inv H (insert n P) im1 (ns @ (zero @ new))" by simp
  from Cons.IH [OF this] obtain im2 zero2 where
    r2: "visit_generation H ns im1 (zero @ new) = Inr (im2, zero2)"
    and inv2: "kahn_inv H (insert n P \<union> set ns) im2 zero2"
    by blast
  have r: "visit_generation H (n # ns) im zero = Inr (im2, zero2)"
    using hn run r2 by simp
  have "insert n P \<union> set ns = P \<union> set (n # ns)" by simp
  with inv2 have "kahn_inv H (P \<union> set (n # ns)) im2 zero2" by simp
  with r show ?case by blast
qed

lemma position_append:
  "position x (xs @ ys) =
     (if x \<in> set xs then position x xs else length xs + position x ys)"
  by (auto simp: position_def takeWhile_append)

lemma position_less: "x \<in> set xs \<Longrightarrow> position x xs < length xs"
  unfolding position_def
  by (induction xs) auto

lemma appears_before_left:
  "x \<in> set xs \<Longrightarrow> y \<in> set ys \<Longrightarrow> y \<notin> set xs \<Longrightarrow> appears_before x y (xs @ ys)"
  using position_less [of x xs]
  by (simp add: appears_before_def position_append)

lemma appears_before_right:
  "x \<notin> set xs \<Longrightarrow> y \<notin> set xs \<Longrightarrow> appears_before x y ys \<Longrightarrow>
   appears_before x y (xs @ ys)"
  by (simp add: appears_before_def position_append)

lemma no_closed_set:
  assumes "acyclic E" and "finite E" and "S \<noteq> {}" and "\<And>v. v \<in> S \<Longrightarrow> \<exists>u \<in> S. (u, v) \<in> E"
  shows False
proof -
  from assms(2,1) have "wf E" by (rule finite_acyclic_wf)
  from wfE_min' [OF this assms(3)] obtain z where
    z: "z \<in> S" and m: "\<And>y. (y, z) \<in> E \<Longrightarrow> y \<notin> S"
    by blast
  from assms(4) [OF z] obtain u where "u \<in> S" "(u, z) \<in> E" by blast
  with m show False by blast
qed

lemma ordered_acyclic:
  assumes "\<And>u v. (u, v) \<in> E \<Longrightarrow> appears_before u v L"
  shows "acyclic E"
proof -
  have "acyclic (E\<inverse>)"
  proof (rule acyclicI_order [where f = "\<lambda>x. position x L"])
    fix a b assume "(a, b) \<in> E\<inverse>"
    then have "(b, a) \<in> E" by simp
    from assms [OF this] show "position b L < position a L"
      by (simp add: appears_before_def)
  qed
  then show ?thesis by simp
qed

lemma loop_result_empty:
  assumes inv: "kahn_inv H P im []"
  shows "loop_result H P (generations_loop H im [])"
proof (cases "im = []")
  case True
  from kahn_invD(6) [OF inv] True have "set (nodes H) - P = {}" by simp
  then have "ordered_from H P []" by (simp add: ordered_from_def)
  with True show ?thesis by (simp add: loop_result_def)
next
  case False
  note d = kahn_invD [OF inv]
  let ?S = "fst ` set im"
  from False have ne: "?S \<noteq> {}" by simp
  have "\<forall>v \<in> ?S. \<exists>u \<in> ?S. (u, v) \<in> edge_rel H"
  proof
    fix v assume "v \<in> ?S"
    then have "v \<in> dom (map_of im)" unfolding keys_dom .
    then obtain k where k: "map_of im v = Some k" by blast
    from d(7) [OF k] have "0 < card (open_preds H P v)" by simp
    then have "open_preds H P v \<noteq> {}" by auto
    then obtain u where u: "(u, v) \<in> edge_rel H" "u \<notin> P"
      by (auto simp: open_preds_def)
    from u(1) d(1) have "u \<in> set (nodes H)"
      unfolding wf_graph_def edge_rel_def by blast
    with u(2) have "u \<in> ?S" unfolding d(6) by simp
    with u(1) show "\<exists>u \<in> ?S. (u, v) \<in> edge_rel H" by blast
  qed
  with ne have "closed_set H ?S" by (simp add: closed_set_def)
  with False show ?thesis by (auto simp: loop_result_def)
qed

lemma ordered_from_generation:
  assumes inv: "kahn_inv H P im Z"
    and rest: "ordered_from H (P \<union> set Z) L"
  shows "ordered_from H P (Z @ L)"
proof -
  note d = kahn_invD [OF inv]
  from rest have dL: "distinct L" and sL: "set L = set (nodes H) - (P \<union> set Z)"
    and oL: "\<And>u v. (u, v) \<in> edge_rel H \<Longrightarrow> v \<in> set L \<Longrightarrow>
               u \<in> P \<union> set Z \<or> appears_before u v L"
    unfolding ordered_from_def by blast+
  from sL have disj: "set Z \<inter> set L = {}" by auto
  have 1: "distinct (Z @ L)" using d(3) dL disj by simp
  have 2: "set (Z @ L) = set (nodes H) - P"
    using sL d(4) d(5) by auto
  have 3: "\<And>u v. (u, v) \<in> edge_rel H \<Longrightarrow> v \<in> set (Z @ L) \<Longrightarrow>
      u \<in> P \<or> appears_before u v (Z @ L)"
  proof -
    fix u v assume e: "(u, v) \<in> edge_rel H" and v: "v \<in> set (Z @ L)"
    show "u \<in> P \<or> appears_before u v (Z @ L)"
    proof (cases "v \<in> set Z")
      case True
      then have "open_preds H P v = {}" using d(8) [of v] by simp
      with e show ?thesis by (auto simp: open_preds_def)
    next
      case False
      with v have vL: "v \<in> set L" by simp
      from oL [OF e vL] consider "u \<in> P" | "u \<in> set Z" | "u \<notin> set Z" "appears_before u v L"
        by blast
      then show ?thesis
      proof cases
        case 1
        then show ?thesis by simp
      next
        case 2
        from appears_before_left [OF 2 vL False] show ?thesis by simp
      next
        case 3
        from appears_before_right [OF 3(1) False 3(2)] show ?thesis by simp
      qed
    qed
  qed
  from 1 2 3 show ?thesis unfolding ordered_from_def by blast
qed

lemma generations_loop_correct:
  "kahn_inv H P im Z \<Longrightarrow> loop_result H P (generations_loop H im Z)"
proof (induction H im Z arbitrary: P rule: generations_loop.induct)
  case (1 G im zero)
  show ?case
  proof (cases "zero = []")
    case True
    with "1.prems" show ?thesis by (simp only: loop_result_empty)
  next
    case False
    from "1.prems" have "kahn_inv G P im (zero @ [])" by simp
    from kahn_generation [OF this] obtain im1 zero1 where
      run: "visit_generation G zero im [] = Inr (im1, zero1)"
      and inv1: "kahn_inv G (P \<union> set zero) im1 zero1"
      by blast
    have ih: "loop_result G (P \<union> set zero) (generations_loop G im1 zero1)"
      by (rule "1.IH" [OF False run refl inv1])
    have unf: "generations_loop G im zero =
        (case generations_loop G im1 zero1 of
           Inl e \<Rightarrow> Inl e
         | Inr gens \<Rightarrow> Inr (zero # gens))"
      using False run by (subst generations_loop.simps) simp
    show ?thesis
    proof (cases "generations_loop G im1 zero1")
      case (Inl e)
      with ih unf show ?thesis by (simp add: loop_result_def)
    next
      case (Inr gens)
      with ih have "ordered_from G (P \<union> set zero) (concat gens)"
        by (simp add: loop_result_def)
      from ordered_from_generation [OF "1.prems" this] Inr unf
      show ?thesis by (simp add: loop_result_def)
    qed
  qed
qed

lemma open_preds_empty: "open_preds H {} v = (edge_rel H)\<inverse> `` {v}"
  by (auto simp: open_preds_def)

lemma in_degree_card:
  "distinct (adj H) \<Longrightarrow> in_degree H v = int (card (open_preds H {} v))"
  by (simp add: in_degree_def length_predecessors open_preds_empty)

lemma positive_keys:
  "map fst (filter (\<lambda>(v, d). d > (0::int)) (map (\<lambda>v. (v, f v)) ns)) =
     filter (\<lambda>v. f v > 0) ns"
  by (induction ns) simp_all

lemma in_degree_positive: "(0 < in_degree H v) = (in_degree H v \<noteq> 0)"
  by (simp add: in_degree_def)

lemma kahn_inv_initial:
  assumes wf: "wf_graph H"
  shows "kahn_inv H {}
           (filter (\<lambda>(v, d). d > 0) (map (\<lambda>v. (v, in_degree H v)) (nodes H)))
           (filter (\<lambda>v. in_degree H v = 0) (nodes H))"
proof -
  let ?im = "filter (\<lambda>(v, d). d > 0) (map (\<lambda>v. (v, in_degree H v)) (nodes H))"
  let ?Z = "filter (\<lambda>v. in_degree H v = 0) (nodes H)"
  from wf have dn: "distinct (nodes H)" and da: "distinct (adj H)"
    by (simp_all add: wf_graph_def)
  have keys: "map fst ?im = filter (\<lambda>v. in_degree H v > 0) (nodes H)"
    by (rule positive_keys)
  show ?thesis
  proof (rule kahn_invI)
    show "wf_graph H" by (rule wf)
    show "distinct (map fst ?im)" unfolding keys using dn by simp
    show "distinct ?Z" using dn by simp
    show "{} \<inter> set ?Z = {}" by simp
    show "{} \<union> set ?Z \<subseteq> set (nodes H)" by simp
    have "set (map fst ?im) = set (nodes H) - {} - set ?Z"
      unfolding keys by (auto simp: in_degree_positive)
    then show "fst ` set ?im = set (nodes H) - {} - set ?Z" by (simp only: set_map)
  next
    fix v d assume "map_of ?im v = Some d"
    then have "(v, d) \<in> set ?im" by (rule map_of_SomeD)
    then have "d = in_degree H v" and "0 < d" by auto
    with in_degree_card [OF da, of v]
    show "d = int (card (open_preds H {} v)) \<and> 0 < d" by (simp only: simp_thms)
  next
    fix v assume "v \<in> set ?Z \<union> {}"
    then have "in_degree H v = 0" by simp
    with in_degree_card [OF da, of v] have "card (open_preds H {} v) = 0" by simp
    with finite_open_preds [of H "{}" v] show "open_preds H {} v = {}" by simp
  qed
qed

lemma topological_sort_correct:
  assumes "wf_graph H"
  shows "(case topological_sort H of
            Inr L \<Rightarrow> ordered_from H {} L
          | Inl e \<Rightarrow> e = NetworkXUnfeasible \<and> (\<exists>S. closed_set H S))"
proof -
  from generations_loop_correct [OF kahn_inv_initial [OF assms]]
  have "loop_result H {} (topological_generations H)"
    by (simp add: topological_generations_def)
  then show ?thesis
    by (cases "topological_generations H") (simp_all add: topological_sort_def loop_result_def)
qed

lemma ordered_from_acyclic:
  assumes wf: "wf_graph H" and o: "ordered_from H {} L"
  shows "acyclic (edge_rel H)"
proof (rule ordered_acyclic)
  fix u v assume e: "(u, v) \<in> edge_rel H"
  with wf have "v \<in> set (nodes H)" unfolding wf_graph_def edge_rel_def by blast
  with o have "v \<in> set L" by (simp add: ordered_from_def)
  with o e show "appears_before u v L" unfolding ordered_from_def by blast
qed

lemma topological_sort_acyclic:
  assumes wf: "wf_graph H" and ac: "acyclic (edge_rel H)"
  shows "\<exists>L. topological_sort H = Inr L \<and> ordered_from H {} L"
proof (cases "topological_sort H")
  case (Inl e)
  with topological_sort_correct [OF wf] obtain S where "closed_set H S" by auto
  then have "S \<noteq> {}" and "\<And>v. v \<in> S \<Longrightarrow> \<exists>u \<in> S. (u, v) \<in> edge_rel H"
    by (simp_all add: closed_set_def)
  from no_closed_set [OF ac _ this] have False by (simp add: edge_rel_def)
  then show ?thesis ..
next
  case (Inr L)
  with topological_sort_correct [OF wf] show ?thesis by simp
qed

lemma topological_sort_cyclic:
  assumes wf: "wf_graph H" and cyc: "\<not> acyclic (edge_rel H)"
  shows "topological_sort H = Inl NetworkXUnfeasible"
proof (cases "topological_sort H")
  case (Inl e)
  with topological_sort_correct [OF wf] show ?thesis by simp
next
  case (Inr L)
  with topological_sort_correct [OF wf] have "ordered_from H {} L" by simp
  from ordered_from_acyclic [OF wf this] cyc show ?thesis by simp
qed

section \<open>The reversed graph\<close>

lemma fold_add_node_props:
  "adj (fold (\<lambda>(n, d) H. add_node H n d) nds G) = adj G \<and>
   set (nodes (fold (\<lambda>(n, d) H. add_node H n d) nds G)) = set (nodes G) \<union> fst ` set nds \<and>
   (wf_graph G \<longrightarrow> wf_graph (fold (\<lambda>(n, d) H. add_node H n d) nds G))"
proof (induction nds arbitrary: G)
  case Nil
  then show ?case by simp
next
  case (Cons p nds)
  obtain n d where p: "p = (n, d)" by (cases p)
  have n: "set (nodes (add_node G n d)) = insert n (set (nodes G))"
    by (auto simp: nodes_add_node)
  from Cons.IH [of "add_node G n d"] show ?case
    by (simp add: p n wf_graph_add_node)
qed

lemma set_nodes_add_edge: "set (nodes (add_edge G u v)) = insert u (insert v (set (nodes G)))"
  by (auto simp: nodes_add_edge)

lemma set_adj_add_edge: "set (adj (add_edge G u v)) = insert (u, v) (set (adj G))"
  by (auto simp: adj_add_edge)

lemma fold_add_edge_props:
  "set (adj (fold (\<lambda>(u, v) H. add_edge H v u) es G)) = set (adj G) \<union> (set es)\<inverse> \<and>
   set (nodes (fold (\<lambda>(u, v) H. add_edge H v u) es G)) =
     set (nodes G) \<union> fst ` set es \<union> snd ` set es \<and>
   (wf_graph G \<longrightarrow> wf_graph (fold (\<lambda>(u, v) H. add_edge H v u) es G))"
proof (induction es arbitrary: G)
  case Nil
  then show ?case by simp
next
  case (Cons e es)
  obtain u v where e: "e = (u, v)" by (cases e)
  from Cons.IH [of "add_edge G v u"] show ?case
    by (simp add: e set_nodes_add_edge set_adj_add_edge wf_graph_add_edge) blast
qed

lemma set_edges: "wf_graph G \<Longrightarrow> set (edges G) = set (adj G)"
proof -
  assume wf: "wf_graph G"
  have "set (edges G) = {(u, v). u \<in> set (nodes G) \<and> (u, v) \<in> set (adj G)}"
    by (auto simp: edges_def set_successors edge_rel_def)
  also have "\<dots> = set (adj G)"
    using wf unfolding wf_graph_def by blast
  finally show ?thesis .
qed

lemma reverse_props:
  assumes wf: "wf_graph G"
  shows "wf_graph (reverse G)" and "set (nodes (reverse G)) = set (nodes G)"
    and "edge_rel (reverse G) = (edge_rel G)\<inverse>"
proof -
  let ?N = "fold (\<lambda>(n, d) H. add_node H n d) (node G) empty_graph"
  note n = fold_add_node_props [of "node G" empty_graph]
  note e = fold_add_edge_props [of "edges G" ?N]
  have fn: "fst ` set (node G) = set (nodes G)" by (simp add: nodes_def)
  from n have nadj: "adj ?N = []" and nn: "set (nodes ?N) = set (nodes G)"
    and nwf: "wf_graph ?N"
    unfolding fn by (simp_all add: adj_empty_graph nodes_empty_graph wf_graph_empty)
  have r: "reverse G = fold (\<lambda>(u, v) H. add_edge H v u) (edges G) ?N"
    by (simp add: reverse_def)
  from e nwf show "wf_graph (reverse G)" unfolding r by blast
  have ends: "fst ` set (adj G) \<union> snd ` set (adj G) \<subseteq> set (nodes G)"
    using wf unfolding wf_graph_def by force
  from e have "set (nodes (reverse G)) =
      set (nodes G) \<union> fst ` set (adj G) \<union> snd ` set (adj G)"
    unfolding r nn set_edges [OF wf] by blast
  with ends show "set (nodes (reverse G)) = set (nodes G)" by blast
  from e show "edge_rel (reverse G) = (edge_rel G)\<inverse>"
    unfolding r edge_rel_def nadj set_edges [OF wf] by simp
qed

section \<open>The install order\<close>

lemma get_install_order_None:
  "fst (get_install_order a None) =
     (case topological_sort (reverse (fst (ensure_graph a))) of
        Inl e \<Rightarrow> (if e = NetworkXUnfeasible then Inr [] else Inl e)
      | Inr order \<Rightarrow> Inr order)"
  by (cases "ensure_graph a")
    (simp add: get_install_order_def split: sum.splits error.splits)

lemma install_order_ordered:
  assumes cur: "graph_current a"
    and ac: "acyclic (edge_rel (build_graph (modules a)))"
  shows "\<exists>order. topological_sort (reverse (build_graph (modules a))) = Inr order \<and>
           fst (get_install_order a None) = Inr order \<and>
           distinct order \<and> set order = set (nodes (build_graph (modules a))) \<and>
           (\<forall>A B. has_edge (build_graph (modules a)) A B \<longrightarrow> appears_before B A order)"
proof -
  let ?G = "build_graph (modules a)"
  let ?H = "reverse ?G"
  note r = reverse_props [OF build_graph_wf [of "modules a"]]
  from ac have "acyclic (edge_rel ?H)" unfolding r(3) by simp
  from topological_sort_acyclic [OF r(1) this] obtain L where
    L: "topological_sort ?H = Inr L" and o: "ordered_from ?H {} L"
    by blast
  from o have dL: "distinct L" and sL: "set L = set (nodes ?G)"
    and oL: "\<And>u v. (u, v) \<in> edge_rel ?H \<Longrightarrow> v \<in> set L \<Longrightarrow> appears_before u v L"
    unfolding ordered_from_def r(2) by blast+
  have e: "\<And>A B. has_edge ?G A B \<Longrightarrow> appears_before B A L"
  proof -
    fix A B assume ab: "has_edge ?G A B"
    then have "(B, A) \<in> edge_rel ?H"
      unfolding r(3) by (simp add: has_edge_def edge_rel_def)
    moreover from ab build_graph_wf [of "modules a"] have "A \<in> set (nodes ?G)"
      unfolding wf_graph_def has_edge_def by blast
    ultimately show "appears_before B A L" using oL sL by blast
  qed
  have "fst (get_install_order a None) = Inr L"
    by (simp add: get_install_order_None ensure_graph_current [OF cur] L)
  with L dL sL e show ?thesis by blast
qed

text \<open>
  Claim C2. When the dependency graph of the module dictionary is acyclic,
  \<^verbatim>\<open>get_install_order\<close> without a subset returns a list in which every node of the
  graph, scanned or external, occurs once, and in which, for every edge from \<open>A\<close> to \<open>B\<close>
  (\<open>A\<close> depends on \<open>B\<close>), \<open>B\<close> comes before \<open>A\<close>.
\<close>

theorem install_order_topological:
  assumes "graph_current a" and "acyclic (edge_rel (build_graph (modules a)))"
  shows "\<exists>order. fst (get_install_order a None) = Inr order \<and>
           distinct order \<and> set order = set (nodes (build_graph (modules a))) \<and>
           (\<forall>A B. has_edge (build_graph (modules a)) A B \<longrightarrow> appears_before B A order)"
  using install_order_ordered [OF assms] by blast

lemma chain_acyclic:
  "acyclic (edge_rel (build_graph
      [module_with ''a'' [''b''], module_with ''b'' [''c''], module_with ''c'' []]))"
proof -
  have "dep_rel [module_with ''a'' [''b''], module_with ''b'' [''c''], module_with ''c'' []] =
      {(''a'', ''b''), (''b'', ''c'')}"
    by (simp add: dep_rel_list module_with_def OdooModule_init_def)
  moreover have "acyclic {(''a'', ''b''), (''b'', ''c'')}"
    by (rule acyclicI_order [where f = "\<lambda>s. if s = ''a'' then 2 else if s = ''b'' then 1 else (0::nat)"])
      auto
  ultimately show ?thesis by (simp add: build_graph_edges)
qed

lemma chain_current:
  "graph_current (analyzer_of ms)"
  by (simp add: graph_current_def analyzer_of_def)

lemma modules_analyzer_of: "modules (analyzer_of ms) = ms"
  by (simp add: analyzer_of_def)

theorem install_order_topological_witness:
  "graph_current (analyzer_of
      [module_with ''a'' [''b''], module_with ''b'' [''c''], module_with ''c'' []]) \<and>
   acyclic (edge_rel (build_graph
      [module_with ''a'' [''b''], module_with ''b'' [''c''], module_with ''c'' []])) \<and>
   fst (get_install_order (analyzer_of
      [module_with ''a'' [''b''], module_with ''b'' [''c''], module_with ''c'' []]) None) =
     Inr [''c'', ''b'', ''a''] \<and>
   appears_before ''b'' ''a'' [''c'', ''b'', ''a'']"
proof -
  let ?ms = "[module_with ''a'' [''b''], module_with ''b'' [''c''], module_with ''c'' []]"
  let ?a = "analyzer_of ?ms"
  have cur: "graph_current ?a" by (rule chain_current)
  have ac: "acyclic (edge_rel (build_graph (modules ?a)))"
    unfolding modules_analyzer_of by (rule chain_acyclic)
  from install_order_topological [OF cur ac] obtain order where
    o: "fst (get_install_order ?a None) = Inr order"
    and e: "\<And>A B. has_edge (build_graph (modules ?a)) A B \<Longrightarrow> appears_before B A order"
    by blast
  have v: "fst (get_install_order ?a None) = Inr [''c'', ''b'', ''a'']"
    by code_simp
  with o have order: "order = [''c'', ''b'', ''a'']" by simp
  have "has_edge (build_graph (modules ?a)) ''a'' ''b''"
    by code_simp
  from e [OF this] have "appears_before ''b'' ''a'' [''c'', ''b'', ''a'']"
    unfolding order .
  with cur ac v show ?thesis unfolding modules_analyzer_of by (intro conjI)
qed

lemma get_all_dependencies_eq:
  "get_all_dependencies a n True =
     (Inr (forward_deps (fst (ensure_graph a)) n), snd (ensure_graph a))"
  by (cases "ensure_graph a")
    (simp add: get_all_dependencies_def forward_deps_def descendants_def bfs_reached_eq
      nrel_def)

lemma required_modules_eq:
  "graph a = Some G \<Longrightarrow>
   required_modules a ns acc = (Inr (acc \<union> set ns \<union> \<Union> (forward_deps G ` set ns)), a)"
proof (induction ns arbitrary: acc)
  case Nil
  then show ?case by simp
next
  case (Cons n ns)
  from Cons.prems have eg: "ensure_graph a = (G, a)" by (rule ensure_graph_Some)
  have "required_modules a (n # ns) acc =
      required_modules a ns (insert n acc \<union> forward_deps G n)"
    by (simp add: get_all_dependencies_eq eg)
  also have "\<dots> = (Inr ((insert n acc \<union> forward_deps G n) \<union> set ns \<union>
      \<Union> (forward_deps G ` set ns)), a)"
    by (rule Cons.IH [OF Cons.prems])
  also have "(insert n acc \<union> forward_deps G n) \<union> set ns \<union> \<Union> (forward_deps G ` set ns) =
      acc \<union> set (n # ns) \<union> \<Union> (forward_deps G ` set (n # ns))"
    by auto
  finally show ?case .
qed

lemma closure_of_subset:
  assumes wf: "wf_graph G"
  shows "set ns \<union> \<Union> (forward_deps G ` set ns) =
         set ns \<union> {d. \<exists>n \<in> set ns. (n, d) \<in> (edge_rel G)\<^sup>+}"
proof (rule set_eqI)
  fix d
  show "d \<in> set ns \<union> \<Union> (forward_deps G ` set ns) \<longleftrightarrow>
        d \<in> set ns \<union> {d. \<exists>n \<in> set ns. (n, d) \<in> (edge_rel G)\<^sup>+}"
  proof (cases "d \<in> set ns")
    case True
    then show ?thesis by simp
  next
    case False
    have "(\<exists>n \<in> set ns. d \<in> forward_deps G n) \<longleftrightarrow>
          (\<exists>n \<in> set ns. (n, d) \<in> (edge_rel G)\<^sup>+)"
    proof
      assume "\<exists>n \<in> set ns. d \<in> forward_deps G n"
      then obtain n where n: "n \<in> set ns" "d \<in> forward_deps G n" by blast
      from n(2) have "(n, d) \<in> (edge_rel G)\<^sup>*" "d \<noteq> n"
        by (auto simp: forward_deps_def split: if_splits)
      then have "(n, d) \<in> (edge_rel G)\<^sup>+" by (auto simp: rtrancl_eq_or_trancl)
      with n(1) show "\<exists>n \<in> set ns. (n, d) \<in> (edge_rel G)\<^sup>+" by blast
    next
      assume "\<exists>n \<in> set ns. (n, d) \<in> (edge_rel G)\<^sup>+"
      then obtain n where n: "n \<in> set ns" "(n, d) \<in> (edge_rel G)\<^sup>+" by blast
      from n(2) have "n \<in> Domain (edge_rel G)"
        using trancl_domain [of "edge_rel G"] by blast
      with wf have "has_node G n"
        unfolding wf_graph_def edge_rel_def has_node_def by blast
      moreover from n False have "d \<noteq> n" by blast
      moreover from n(2) have "(n, d) \<in> (edge_rel G)\<^sup>*" by simp
      ultimately have "d \<in> forward_deps G n" by (simp add: forward_deps_def)
      with n(1) show "\<exists>n \<in> set ns. d \<in> forward_deps G n" by blast
    qed
    with False show ?thesis by simp
  qed
qed

lemma get_install_order_Some:
  assumes "ns \<noteq> []"
  shows "fst (get_install_order a (Some ns)) =
     (case topological_sort (reverse (fst (ensure_graph a))) of
        Inl e \<Rightarrow> (if e = NetworkXUnfeasible then Inr [] else Inl e)
      | Inr order \<Rightarrow>
          Inr (filter (\<lambda>m. m \<in> set ns \<union> \<Union> (forward_deps (fst (ensure_graph a)) ` set ns))
                 order))"
proof -
  obtain G a1 where eg: "ensure_graph a = (G, a1)" by (cases "ensure_graph a")
  from ensure_graph_graph [of a] eg have g: "graph a1 = Some G" by simp
  from assms obtain n ns' where ns: "ns = n # ns'" by (cases ns) auto
  have rq: "required_modules a1 ns {} =
      (Inr (set ns \<union> \<Union> (forward_deps G ` set ns)), a1)"
    using required_modules_eq [OF g, of ns "{}"] by simp
  show ?thesis
    unfolding get_install_order_def eg ns
    by (simp add: rq [unfolded ns] del: required_modules.simps
        split: sum.splits error.splits)
qed

text \<open>
  Claim C6. On an acyclic graph and for a non-empty list of names,
  \<^verbatim>\<open>get_install_order\<close> returns the full install order restricted to the names and
  everything they depend on, directly or through other modules, in the order of the full
  install order.
\<close>

theorem install_order_subset:
  assumes "graph_current a" and "acyclic (edge_rel (build_graph (modules a)))"
    and "ns \<noteq> []"
  shows "\<exists>full. fst (get_install_order a None) = Inr full \<and>
           fst (get_install_order a (Some ns)) =
             Inr (filter (\<lambda>m. m \<in> set ns \<union>
                               {d. \<exists>n \<in> set ns. (n, d) \<in> (edge_rel (build_graph (modules a)))\<^sup>+})
                    full)"
proof -
  let ?G = "build_graph (modules a)"
  from install_order_ordered [OF assms(1,2)] obtain full where
    t: "topological_sort (reverse ?G) = Inr full"
    and f: "fst (get_install_order a None) = Inr full"
    by blast
  have "fst (get_install_order a (Some ns)) =
      Inr (filter (\<lambda>m. m \<in> set ns \<union> \<Union> (forward_deps ?G ` set ns)) full)"
    by (simp add: get_install_order_Some [OF assms(3)] ensure_graph_current [OF assms(1)] t)
  with f show ?thesis
    unfolding closure_of_subset [OF build_graph_wf] by blast
qed

theorem install_order_subset_witness:
  "graph_current (analyzer_of
      [module_with ''a'' [''b''], module_with ''b'' [''c''], module_with ''c'' []]) \<and>
   acyclic (edge_rel (build_graph
      [module_with ''a'' [''b''], module_with ''b'' [''c''], module_with ''c'' []])) \<and>
   fst (get_install_order (analyzer_of
      [module_with ''a'' [''b''], module_with ''b'' [''c''], module_with ''c'' []])
      (Some [''a''])) = Inr [''c'', ''b'', ''a''] \<and>
   filter (\<lambda>m. m \<in> set [''a''] \<union>
                 {d. \<exists>n \<in> set [''a'']. (n, d) \<in> (edge_rel (build_graph
                    [module_with ''a'' [''b''], module_with ''b'' [''c''],
                     module_with ''c'' []]))\<^sup>+})
     [''c'', ''b'', ''a''] = [''c'', ''b'', ''a'']"
proof -
  let ?ms = "[module_with ''a'' [''b''], module_with ''b'' [''c''], module_with ''c'' []]"
  let ?a = "analyzer_of ?ms"
  have cur: "graph_current ?a" by (rule chain_current)
  have ac: "acyclic (edge_rel (build_graph (modules ?a)))"
    unfolding modules_analyzer_of by (rule chain_acyclic)
  have ne: "[''a''] \<noteq> ([] :: string list)" by simp
  from install_order_subset [OF cur ac ne] obtain full where
    f: "fst (get_install_order ?a None) = Inr full"
    and s: "fst (get_install_order ?a (Some [''a''])) =
             Inr (filter (\<lambda>m. m \<in> set [''a''] \<union>
                               {d. \<exists>n \<in> set [''a'']. (n, d) \<in> (edge_rel (build_graph ?ms))\<^sup>+})
                    full)"
    unfolding modules_analyzer_of by blast
  have "fst (get_install_order ?a None) = Inr [''c'', ''b'', ''a'']"
    by code_simp
  with f have full: "full = [''c'', ''b'', ''a'']" by simp
  have v: "fst (get_install_order ?a (Some [''a''])) = Inr [''c'', ''b'', ''a'']"
    by code_simp
  from s [unfolded full v] have
    "filter (\<lambda>m. m \<in> set [''a''] \<union>
                 {d. \<exists>n \<in> set [''a'']. (n, d) \<in> (edge_rel (build_graph ?ms))\<^sup>+})
       [''c'', ''b'', ''a''] = [''c'', ''b'', ''a'']"
    by (simp only: sum.inject)
  with cur ac v show ?thesis unfolding modules_analyzer_of by (intro conjI)
qed

section \<open>Cycles\<close>

lemma three_cycle_graph:
  assumes "x \<noteq> y" and "y \<noteq> z" and "x \<noteq> z"
    and "depends mx = [y]" and "depends my = [z]" and "depends mz = [x]"
  shows "nodes (build_graph [(x, mx), (y, my), (z, mz)]) = [x, y, z]"
    and "adj (build_graph [(x, mx), (y, my), (z, mz)]) = [(x, y), (y, z), (z, x)]"
  using assms
  by (simp_all add: build_graph_def add_module_nodes_def add_module_edges_def
      add_dependency_def nodes_add_edge nodes_add_node adj_add_edge has_node_def
      nodes_empty_graph adj_empty_graph)

lemma three_cycle_graph':
  assumes "x \<noteq> y" and "y \<noteq> z" and "x \<noteq> z"
    and "depends mx = [y]" and "depends my = [z]" and "depends mz = [x]"
  shows "nodes (build_graph [(x, mx), (z, mz), (y, my)]) = [x, z, y]"
    and "adj (build_graph [(x, mx), (z, mz), (y, my)]) = [(x, y), (z, x), (y, z)]"
  using assms
  by (simp_all add: build_graph_def add_module_nodes_def add_module_edges_def
      add_dependency_def nodes_add_edge nodes_add_node adj_add_edge has_node_def
      nodes_empty_graph adj_empty_graph)

lemma simple_cycles_three:
  assumes "x \<noteq> y" and "y \<noteq> z" and "x \<noteq> z"
    and "nodes G = [x, y, z]" and "adj G = [(x, y), (y, z), (z, x)]"
  shows "simple_cycles G = [[x, y, z]]"
proof -
  let ?G = "G\<lparr>adj := filter (\<lambda>(u, v). v \<noteq> u) (adj G)\<rparr>"
  from assms have sx: "successors ?G x = [y]" and sy: "successors ?G y = [z]"
    and sz: "successors ?G z = [x]"
    by (auto simp: successors_def)
  have c1: "cycles_through ?G x [y, z] x [x] = [[x, y, z]]"
    using assms(1-3)
    by (simp add: cycles_through.simps [of ?G x] sx sy sz)
  have c2: "cycles_through ?G y [z] y [y] = []"
    using assms(1-3)
    by (simp add: cycles_through.simps [of ?G y] sx sy sz)
  have c3: "cycles_through ?G z [] z [z] = []"
    using assms(1-3)
    by (simp add: cycles_through.simps [of ?G z] sx sy sz)
  have loops: "filter (\<lambda>v. has_edge G v v) (nodes G) = []"
    using assms by (auto simp: has_edge_def)
  have "simple_cycles G = cycle_search ?G (nodes G)"
    unfolding simple_cycles_def loops by simp
  also have "\<dots> = cycles_through ?G x [y, z] x [x] @ cycles_through ?G y [z] y [y] @
      cycles_through ?G z [] z [z]"
    unfolding assms(4) by (simp del: cycles_through.simps)
  finally show ?thesis unfolding c1 c2 c3 by simp
qed

lemma simple_cycles_three':
  assumes "x \<noteq> y" and "y \<noteq> z" and "x \<noteq> z"
    and "nodes G = [x, z, y]" and "adj G = [(x, y), (z, x), (y, z)]"
  shows "simple_cycles G = [[x, y, z]]"
proof -
  let ?G = "G\<lparr>adj := filter (\<lambda>(u, v). v \<noteq> u) (adj G)\<rparr>"
  from assms have sx: "successors ?G x = [y]" and sy: "successors ?G y = [z]"
    and sz: "successors ?G z = [x]"
    by (auto simp: successors_def)
  have c1: "cycles_through ?G x [z, y] x [x] = [[x, y, z]]"
    using assms(1-3)
    by (simp add: cycles_through.simps [of ?G x] sx sy sz)
  have c2: "cycles_through ?G z [y] z [z] = []"
    using assms(1-3)
    by (simp add: cycles_through.simps [of ?G z] sx sy sz)
  have c3: "cycles_through ?G y [] y [y] = []"
    using assms(1-3)
    by (simp add: cycles_through.simps [of ?G y] sx sy sz)
  have loops: "filter (\<lambda>v. has_edge G v v) (nodes G) = []"
    using assms by (auto simp: has_edge_def)
  have "simple_cycles G = cycle_search ?G (nodes G)"
    unfolding simple_cycles_def loops by simp
  also have "\<dots> = cycles_through ?G x [z, y] x [x] @ cycles_through ?G z [y] z [z] @
      cycles_through ?G y [] y [y]"
    unfolding assms(4) by (simp del: cycles_through.simps)
  finally show ?thesis unfolding c1 c2 c3 by simp
qed

lemma find_circular_dependencies_eq:
  "graph_current a \<Longrightarrow>
   fst (find_circular_dependencies a) = simple_cycles (build_graph (modules a))"
  using ensure_graph_current [of a]
  by (cases "ensure_graph a") (simp add: find_circular_dependencies_def)

lemma three_cycle_found:
  assumes "x \<noteq> y" and "y \<noteq> z" and "x \<noteq> z"
    and "depends mx = [y]" and "depends my = [z]" and "depends mz = [x]"
    and "graph_current a"
    and "modules a = [(x, mx), (y, my), (z, mz)] \<or> modules a = [(x, mx), (z, mz), (y, my)]"
  shows "fst (find_circular_dependencies a) = [[x, y, z]]"
  using assms(8)
proof
  assume m: "modules a = [(x, mx), (y, my), (z, mz)]"
  show ?thesis
    unfolding find_circular_dependencies_eq [OF assms(7)] m
    by (rule simple_cycles_three [OF assms(1-3) three_cycle_graph [OF assms(1-6)]])
next
  assume m: "modules a = [(x, mx), (z, mz), (y, my)]"
  show ?thesis
    unfolding find_circular_dependencies_eq [OF assms(7)] m
    by (rule simple_cycles_three' [OF assms(1-3) three_cycle_graph' [OF assms(1-6)]])
qed

lemma three_orders:
  assumes "length ms = 3" and "set ms = {p, q, r}"
    and "p \<noteq> q" and "q \<noteq> r" and "p \<noteq> r"
  shows "ms = [p, q, r] \<or> ms = [p, r, q] \<or> ms = [q, r, p] \<or> ms = [q, p, r] \<or>
         ms = [r, p, q] \<or> ms = [r, q, p]"
proof -
  from assms(1) obtain a b c where ms: "ms = [a, b, c]"
    by (auto simp: length_Suc_conv numeral_3_eq_3)
  from assms(2) have in3: "a \<in> {p, q, r}" "b \<in> {p, q, r}" "c \<in> {p, q, r}"
    and cover: "p \<in> {a, b, c}" "q \<in> {a, b, c}" "r \<in> {a, b, c}"
    unfolding ms by auto
  from in3 cover assms(3-5) show ?thesis unfolding ms by auto
qed

lemma three_cycle_any_order:
  assumes d: "x \<noteq> y" "y \<noteq> z" "x \<noteq> z"
    and deps: "depends mx = [y]" "depends my = [z]" "depends mz = [x]"
    and cur: "graph_current a"
    and len: "length (modules a) = 3"
    and ms: "set (modules a) = {(x, mx), (y, my), (z, mz)}"
  shows "fst (find_circular_dependencies a) = [[x, y, z]] \<or>
         fst (find_circular_dependencies a) = [[y, z, x]] \<or>
         fst (find_circular_dependencies a) = [[z, x, y]]"
proof -
  from d have pd: "(x, mx) \<noteq> (y, my)" "(y, my) \<noteq> (z, mz)" "(x, mx) \<noteq> (z, mz)"
    by simp_all
  from three_orders [OF len ms pd] consider
      "modules a = [(x, mx), (y, my), (z, mz)] \<or> modules a = [(x, mx), (z, mz), (y, my)]"
    | "modules a = [(y, my), (z, mz), (x, mx)] \<or> modules a = [(y, my), (x, mx), (z, mz)]"
    | "modules a = [(z, mz), (x, mx), (y, my)] \<or> modules a = [(z, mz), (y, my), (x, mx)]"
    by blast
  then show ?thesis
  proof cases
    case 1
    from three_cycle_found [OF d deps cur 1] show ?thesis by simp
  next
    case 2
    from d have d': "y \<noteq> z" "z \<noteq> x" "y \<noteq> x" by auto
    from three_cycle_found [OF d' deps(2) deps(3) deps(1) cur 2] show ?thesis by simp
  next
    case 3
    from d have d': "z \<noteq> x" "x \<noteq> y" "z \<noteq> y" by auto
    from three_cycle_found [OF d' deps(3) deps(1) deps(2) cur 3] show ?thesis by simp
  qed
qed

lemma get_install_order_cyclic:
  assumes cur: "graph_current a"
    and cyc: "\<not> acyclic (edge_rel (build_graph (modules a)))"
  shows "fst (get_install_order a sub) = Inr []"
proof -
  let ?G = "build_graph (modules a)"
  note r = reverse_props [OF build_graph_wf [of "modules a"]]
  from cyc have "\<not> acyclic (edge_rel (reverse ?G))" unfolding r(3) by simp
  from topological_sort_cyclic [OF r(1) this]
  have t: "topological_sort (reverse ?G) = Inl NetworkXUnfeasible" .
  obtain G a1 where eg: "ensure_graph a = (G, a1)" by (cases "ensure_graph a")
  with ensure_graph_current [OF cur] have G: "G = ?G" by simp
  show ?thesis
    unfolding get_install_order_def eg G by (simp add: t)
qed

section \<open>Cycle detection and the install order on a cycle\<close>

text \<open>
  Claim C3. For a module dictionary of three modules \<open>x\<close>, \<open>y\<close>, \<open>z\<close>, in any order, in
  which \<open>x\<close> depends on \<open>y\<close>, \<open>y\<close> on \<open>z\<close> and \<open>z\<close> on \<open>x\<close>,
  \<^verbatim>\<open>find_circular_dependencies\<close> returns exactly one cycle, of length three, with the
  nodes \<open>x\<close>, \<open>y\<close>, \<open>z\<close>. And for every module dictionary whose graph has a cycle,
  \<^verbatim>\<open>get_install_order\<close>, with or without a subset, returns the empty list and raises
  nothing.
\<close>

theorem cycle_round_trip:
  "(x \<noteq> y \<and> y \<noteq> z \<and> x \<noteq> z \<and>
    depends mx = [y] \<and> depends my = [z] \<and> depends mz = [x] \<and>
    graph_current a \<and> length (modules a) = 3 \<and>
    set (modules a) = {(x, mx), (y, my), (z, mz)} \<longrightarrow>
    (\<exists>cyc. fst (find_circular_dependencies a) = [cyc] \<and> set cyc = {x, y, z} \<and>
           length cyc = 3)) \<and>
   (graph_current b \<and> \<not> acyclic (edge_rel (build_graph (modules b))) \<longrightarrow>
    fst (get_install_order b sub) = Inr [])"
proof (intro conjI impI)
  assume h: "x \<noteq> y \<and> y \<noteq> z \<and> x \<noteq> z \<and>
    depends mx = [y] \<and> depends my = [z] \<and> depends mz = [x] \<and>
    graph_current a \<and> length (modules a) = 3 \<and>
    set (modules a) = {(x, mx), (y, my), (z, mz)}"
  then have "fst (find_circular_dependencies a) = [[x, y, z]] \<or>
         fst (find_circular_dependencies a) = [[y, z, x]] \<or>
         fst (find_circular_dependencies a) = [[z, x, y]]"
    by (intro three_cycle_any_order) simp_all
  then show "\<exists>cyc. fst (find_circular_dependencies a) = [cyc] \<and> set cyc = {x, y, z} \<and>
           length cyc = 3"
    by (elim disjE) auto
next
  assume "graph_current b \<and> \<not> acyclic (edge_rel (build_graph (modules b)))"
  then show "fst (get_install_order b sub) = Inr []"
    by (simp add: get_install_order_cyclic)
qed

lemma triangle_cyclic:
  "\<not> acyclic (edge_rel (build_graph
      [module_with ''a'' [''b''], module_with ''b'' [''c''], module_with ''c'' [''a'']]))"
proof -
  let ?R = "{(''a'', ''b''), (''b'', ''c''), (''c'', ''a'')}"
  have "dep_rel [module_with ''a'' [''b''], module_with ''b'' [''c''],
                 module_with ''c'' [''a'']] = ?R"
    by (simp add: dep_rel_list module_with_def OdooModule_init_def)
  moreover have "(''a'', ''a'') \<in> ?R\<^sup>+"
  proof -
    have "(''a'', ''b'') \<in> ?R\<^sup>+" by (rule r_into_trancl) simp
    then have "(''a'', ''c'') \<in> ?R\<^sup>+" by (rule trancl_into_trancl) simp
    then show ?thesis by (rule trancl_into_trancl) simp
  qed
  ultimately show ?thesis by (auto simp: build_graph_edges acyclic_def)
qed

theorem cycle_round_trip_witness:
  "fst (find_circular_dependencies (analyzer_of
      [module_with ''a'' [''b''], module_with ''b'' [''c''], module_with ''c'' [''a'']])) =
     [[''a'', ''b'', ''c'']] \<and>
   \<not> acyclic (edge_rel (build_graph
      [module_with ''a'' [''b''], module_with ''b'' [''c''], module_with ''c'' [''a'']])) \<and>
   fst (get_install_order (analyzer_of
      [module_with ''a'' [''b''], module_with ''b'' [''c''], module_with ''c'' [''a'']])
      None) = Inr [] \<and>
   fst (get_install_order (analyzer_of
      [module_with ''a'' [''b''], module_with ''b'' [''c''], module_with ''c'' [''a'']])
      (Some [''a''])) = Inr []"
proof -
  let ?ms = "[module_with ''a'' [''b''], module_with ''b'' [''c''], module_with ''c'' [''a'']]"
  let ?a = "analyzer_of ?ms"
  have cur: "graph_current ?a" by (rule chain_current)
  have cyc: "\<not> acyclic (edge_rel (build_graph (modules ?a)))"
    unfolding modules_analyzer_of by (rule triangle_cyclic)
  have shape: "''a'' \<noteq> ''b'' \<and> ''b'' \<noteq> ''c'' \<and> ''a'' \<noteq> ''c'' \<and>
    depends (snd (module_with ''a'' [''b''])) = [''b''] \<and>
    depends (snd (module_with ''b'' [''c''])) = [''c''] \<and>
    depends (snd (module_with ''c'' [''a''])) = [''a''] \<and>
    graph_current ?a \<and> length (modules ?a) = 3 \<and>
    set (modules ?a) = {(''a'', snd (module_with ''a'' [''b''])),
                        (''b'', snd (module_with ''b'' [''c''])),
                        (''c'', snd (module_with ''c'' [''a'']))}"
    using cur by (simp add: modules_analyzer_of module_with_def)
  note inst = cycle_round_trip [of "''a''" "''b''" "''c''"
      "snd (module_with ''a'' [''b''])" "snd (module_with ''b'' [''c''])"
      "snd (module_with ''c'' [''a''])" ?a ?a]
  from inst [of None] shape obtain cyc where
    c: "fst (find_circular_dependencies ?a) = [cyc]" "set cyc = {''a'', ''b'', ''c''}"
    by blast
  have v: "fst (find_circular_dependencies ?a) = [[''a'', ''b'', ''c'']]"
    by code_simp
  from inst [of None] cur cyc have n: "fst (get_install_order ?a None) = Inr []"
    by blast
  from inst [of "Some [''a'']"] cur cyc
  have s: "fst (get_install_order ?a (Some [''a''])) = Inr []"
    by blast
  from v cyc n s show ?thesis unfolding modules_analyzer_of by (intro conjI)
qed

end
